theory Spec2Isabelle
  imports Complex_Main "HOL-Library.Sublist" "HOL-Library.Code_Target_Nat"
begin

section \<open>Text and the regular expressions of the pattern library\<close>

text \<open>
  A JavaScript string is a sequence of UTF-16 code units; \<open>length\<close> counts code units.
  A string is therefore a list of code units, each a natural number.  A literal is written
  \<open>str ''abc''\<close>.
\<close>

type_synonym jstring = "nat list"

definition str :: "string \<Rightarrow> jstring" where
  "str s = map of_char s"

text \<open>The character classes \<open>\s\<close>, \<open>\w\<close> and the line terminators of ECMAScript
  (regular expressions without the \<open>u\<close> flag).\<close>

definition isLineTerminator :: "nat \<Rightarrow> bool" where
  "isLineTerminator c = (c = 10 \<or> c = 13 \<or> c = 8232 \<or> c = 8233)"

definition isWhiteSpace :: "nat \<Rightarrow> bool" where
  "isWhiteSpace c =
     (c = 9 \<or> c = 10 \<or> c = 11 \<or> c = 12 \<or> c = 13 \<or> c = 32 \<or> c = 160 \<or> c = 5760 \<or>
      (8192 \<le> c \<and> c \<le> 8202) \<or> c = 8232 \<or> c = 8233 \<or> c = 8239 \<or> c = 8287 \<or>
      c = 12288 \<or> c = 65279)"

definition isWordChar :: "nat \<Rightarrow> bool" where
  "isWordChar c = ((48 \<le> c \<and> c \<le> 57) \<or> (65 \<le> c \<and> c \<le> 90) \<or> c = 95 \<or> (97 \<le> c \<and> c \<le> 122))"

text \<open>\<open>String.prototype.trim\<close> removes white space and line terminators at both ends.\<close>

definition trim :: "jstring \<Rightarrow> jstring" where
  "trim s = rev (dropWhile isWhiteSpace (rev (dropWhile isWhiteSpace s)))"

text \<open>\<open>String.prototype.includes\<close>: the second string occurs somewhere in the first.\<close>

fun str_includes :: "jstring \<Rightarrow> jstring \<Rightarrow> bool" where
  "str_includes [] t = (t = [])"
| "str_includes (c # cs) t = (prefix t (c # cs) \<or> str_includes cs t)"

text \<open>
  A regular expression is modelled by its matcher at one position of the subject: given the
  code unit before the position (\<open>None\<close> at the start of the subject; every pattern of the
  library looks back one unit at most) and the rest of the subject from the position on, the
  matcher returns the length of the match that the backtracking engine finds there, or
  \<open>None\<close>.
\<close>

type_synonym matcher = "nat option \<Rightarrow> jstring \<Rightarrow> nat option"

text \<open>\<open>^\<close> and \<open>$\<close> under the \<open>m\<close> flag.\<close>

definition atLineStart :: "nat option \<Rightarrow> bool" where
  "atLineStart prev = (case prev of None \<Rightarrow> True | Some p \<Rightarrow> isLineTerminator p)"

definition atLineEnd :: "jstring \<Rightarrow> bool" where
  "atLineEnd rest = (case rest of [] \<Rightarrow> True | c # _ \<Rightarrow> isLineTerminator c)"

text \<open>
  \<open>RegExp.prototype[Symbol.split]\<close>: \<open>p\<close> is the start of the piece being collected and
  \<open>q\<close> the position tried; \<open>cur\<close> holds the units from \<open>p\<close> to \<open>q\<close> in reverse, so
  \<open>q = p\<close> exactly when \<open>cur\<close> is empty.  At \<open>q\<close> the pattern is tried at exactly that
  position; without a match, or with a match that ends at \<open>p\<close>, \<open>q\<close> advances by one;
  otherwise the piece is emitted and both \<open>p\<close> and \<open>q\<close> move to the end of the match.
  When \<open>q\<close> reaches the end the last piece is emitted.
\<close>

function split_loop :: "matcher \<Rightarrow> nat option \<Rightarrow> jstring \<Rightarrow> jstring \<Rightarrow> jstring list" where
  "split_loop m prev cur rest =
     (case rest of
        [] \<Rightarrow> [rev cur]
      | c # cs \<Rightarrow>
          (case m prev rest of
             None \<Rightarrow> split_loop m (Some c) (c # cur) cs
           | Some n \<Rightarrow>
               if n = 0 \<and> cur = [] then split_loop m (Some c) (c # cur) cs
               else rev cur #
                 split_loop m (if n = 0 then prev else Some (last (take n rest))) [] (drop n rest)))"
  by pat_completeness auto
termination
  by (relation "measure (\<lambda>(m, prev, cur, rest). 2 * length rest + (if cur = [] then 0 else 1))")
     auto

declare split_loop.simps [simp del]

definition js_split :: "matcher \<Rightarrow> jstring \<Rightarrow> jstring list" where
  "js_split m s =
     (if s = [] then (if m None [] \<noteq> None then [] else [[]]) else split_loop m None [] s)"

text \<open>\<open>RegExp.prototype.test\<close> from \<open>lastIndex = 0\<close>: some position has a match.\<close>

fun test_from :: "matcher \<Rightarrow> nat option \<Rightarrow> jstring \<Rightarrow> bool" where
  "test_from m prev [] = (m prev [] \<noteq> None)"
| "test_from m prev (c # cs) = (m prev (c # cs) \<noteq> None \<or> test_from m (Some c) cs)"

definition regex_test :: "matcher \<Rightarrow> jstring \<Rightarrow> bool" where
  "regex_test m s = test_from m None s"

text \<open>
  \<open>String.prototype.match\<close> with a global pattern: the number of matches found scanning
  from the left, each search resuming at the end of the previous match (one unit further
  after an empty match).
\<close>

function count_from :: "matcher \<Rightarrow> nat option \<Rightarrow> jstring \<Rightarrow> nat" where
  "count_from m prev rest =
     (case rest of
        [] \<Rightarrow> (if m prev [] \<noteq> None then 1 else 0)
      | c # cs \<Rightarrow>
          (case m prev rest of
             None \<Rightarrow> count_from m (Some c) cs
           | Some n \<Rightarrow>
               if n = 0 then 1 + count_from m (Some c) cs
               else 1 + count_from m (Some (last (take n rest))) (drop n rest)))"
  by pat_completeness auto
termination
  by (relation "measure (\<lambda>(m, prev, rest). length rest)") auto

declare count_from.simps [simp del]

definition match_count :: "matcher \<Rightarrow> jstring \<Rightarrow> nat" where
  "match_count m s = count_from m None s"

subsection \<open>The patterns\<close>

text \<open>\<open>paragraphs: /\n{2,}/\<close>\<close>

definition paragraphs :: matcher where
  "paragraphs prev rest =
     (let k = length (takeWhile (\<lambda>c. c = 10) rest) in if 2 \<le> k then Some k else None)"

text \<open>\<open>sentences: /(?<=[.!?])\s+/\<close>\<close>

definition sentences :: matcher where
  "sentences prev rest =
     (case prev of
        None \<Rightarrow> None
      | Some p \<Rightarrow>
          if p = 46 \<or> p = 33 \<or> p = 63
          then (let k = length (takeWhile isWhiteSpace rest) in if 1 \<le> k then Some k else None)
          else None)"

text \<open>\<open>horizontalRules: /(?:^---+$|^\*{3,}$|^={3,}$)/gm\<close>.  A run of the rule character
  is taken greedily; giving units back would leave \<open>$\<close> in front of a rule character.\<close>

definition ruleLine :: "nat \<Rightarrow> jstring \<Rightarrow> nat option" where
  "ruleLine c rest =
     (let k = length (takeWhile (\<lambda>d. d = c) rest)
      in if 3 \<le> k \<and> atLineEnd (drop k rest) then Some k else None)"

definition horizontalRules :: matcher where
  "horizontalRules prev rest =
     (if atLineStart prev
      then (case ruleLine 45 rest of
              Some k \<Rightarrow> Some k
            | None \<Rightarrow> (case ruleLine 42 rest of Some k \<Rightarrow> Some k | None \<Rightarrow> ruleLine 61 rest))
      else None)"

text \<open>
  \<open>headers: /(?=^#{1,6}\s+.+$)/gm\<close>, a lookahead that consumes nothing.  The run of
  \<open>#\<close> must have between one and six units and be followed by white space (fewer hashes
  would leave \<open>\s+\<close> in front of a hash).  \<open>\s+\<close> may stop after any number \<open>i \<ge> 1\<close> of
  the white-space units that follow, and \<open>.+$\<close> then needs one unit there that is not a
  line terminator.
\<close>

definition headerLineAhead :: "jstring \<Rightarrow> bool" where
  "headerLineAhead rest =
     (let h = length (takeWhile (\<lambda>c. c = 35) rest);
          r = drop h rest;
          w = length (takeWhile isWhiteSpace r)
      in 1 \<le> h \<and> h \<le> 6 \<and> 1 \<le> w \<and> list_ex (\<lambda>c. \<not> isLineTerminator c) (take w (tl r)))"

definition headers :: matcher where
  "headers prev rest = (if atLineStart prev \<and> headerLineAhead rest then Some 0 else None)"

text \<open>\<open>hasHeader: /^#{1,6}\s+/m\<close>\<close>

definition hasHeader :: matcher where
  "hasHeader prev rest =
     (let h = length (takeWhile (\<lambda>c. c = 35) rest);
          w = length (takeWhile isWhiteSpace (drop h rest))
      in if atLineStart prev \<and> 1 \<le> h \<and> h \<le> 6 \<and> 1 \<le> w then Some (h + w) else None)"

text \<open>\<open>String.prototype.indexOf\<close>\<close>

fun index_of :: "jstring \<Rightarrow> jstring \<Rightarrow> nat option" where
  "index_of t [] = (if t = [] then Some 0 else None)"
| "index_of t (c # cs) = (if prefix t (c # cs) then Some 0 else map_option Suc (index_of t cs))"

text \<open>\<open>codeBlock: /```[\s\S]*?```|^ {4,}\S/m\<close>: a fence closed by the nearest later
  fence, or else a line that starts with four or more spaces and then a unit that is not
  white space.\<close>

definition fence :: jstring where
  "fence = [96, 96, 96]"

definition indentedCode :: matcher where
  "indentedCode prev rest =
     (let k = length (takeWhile (\<lambda>c. c = 32) rest)
      in if atLineStart prev \<and> 4 \<le> k \<and>
            (case drop k rest of [] \<Rightarrow> False | c # _ \<Rightarrow> \<not> isWhiteSpace c)
         then Some (k + 1) else None)"

definition codeBlock :: matcher where
  "codeBlock prev rest =
     (if prefix fence rest
      then (case index_of fence (drop 3 rest) of
              Some i \<Rightarrow> Some (3 + i + 3)
            | None \<Rightarrow> indentedCode prev rest)
      else indentedCode prev rest)"

text \<open>\<open>/\s+/\<close>\<close>

definition whiteSpaceRun :: matcher where
  "whiteSpaceRun prev rest =
     (let k = length (takeWhile isWhiteSpace rest) in if 1 \<le> k then Some k else None)"

text \<open>A string used as separator of \<open>String.prototype.split\<close>.\<close>

definition literal :: "jstring \<Rightarrow> matcher" where
  "literal t prev rest = (if prefix t rest then Some (length t) else None)"

text \<open>
  The scorer builds \<open>new RegExp(`\\b${escapeRegex(word)}\\b`, "gi")\<close> and
  \<open>new RegExp(`\\b${escapeRegex(word)}`, "gi")\<close>; \<open>escapeRegex\<close> puts a backslash in front
  of every unit that has a meaning in a pattern, so the pattern matches the units of
  \<open>word\<close> themselves.  Under the \<open>i\<close> flag (without \<open>u\<close>) two units match when their
  canonical forms are equal.  The canonical form of an ASCII letter is its upper case, and a
  unit outside ASCII never has an ASCII canonical form; the patterns of this program that
  carry the \<open>i\<close> flag are made of ASCII units (the words of a normalized term, tag names),
  for which comparing with \<open>canonicalize\<close> is therefore exact on every subject.
  \<open>\b\<close> holds between two neighbours of which exactly one is a word character.
\<close>

definition canonicalize :: "nat \<Rightarrow> nat" where
  "canonicalize c = (if 97 \<le> c \<and> c \<le> 122 then c - 32 else c)"

definition wordBoundary :: "nat option \<Rightarrow> jstring \<Rightarrow> bool" where
  "wordBoundary prev rest =
     ((case prev of None \<Rightarrow> False | Some p \<Rightarrow> isWordChar p) \<noteq>
      (case rest of [] \<Rightarrow> False | c # _ \<Rightarrow> isWordChar c))"

definition matchesWord :: "jstring \<Rightarrow> jstring \<Rightarrow> bool" where
  "matchesWord word rest =
     (length word \<le> length rest \<and>
      map canonicalize (take (length word) rest) = map canonicalize word)"

definition wordExact :: "jstring \<Rightarrow> matcher" where
  "wordExact word prev rest =
     (if wordBoundary prev rest \<and> matchesWord word rest \<and>
         wordBoundary (if word = [] then prev else Some (last (take (length word) rest)))
           (drop (length word) rest)
      then Some (length word) else None)"

definition wordPartial :: "jstring \<Rightarrow> matcher" where
  "wordPartial word prev rest =
     (if wordBoundary prev rest \<and> matchesWord word rest then Some (length word) else None)"

section \<open>Relevance scorer\<close>

text \<open>
  \<open>String.prototype.toLowerCase\<close> and \<open>String.prototype.normalize("NFD")\<close> are
  built-ins of the runtime, defined by the Unicode character database.  They are parameters
  of the model.
\<close>

record runtime =
  toLowerCase :: "jstring \<Rightarrow> jstring"
  normalizeNFD :: "jstring \<Rightarrow> jstring"

text \<open>\<open>.replace(/[U+0300-U+036F]/g, "")\<close>, the combining diacritical marks\<close>

definition removeAccents :: "jstring \<Rightarrow> jstring" where
  "removeAccents s = filter (\<lambda>c. \<not> (768 \<le> c \<and> c \<le> 879)) s"

text \<open>\<open>.replace(/[^\w\s]/g, " ")\<close>\<close>

definition removePunctuation :: "jstring \<Rightarrow> jstring" where
  "removePunctuation s = map (\<lambda>c. if isWordChar c \<or> isWhiteSpace c then c else 32) s"

text \<open>\<open>.replace(/\s+/g, " ")\<close>\<close>

function collapseSpaces :: "jstring \<Rightarrow> jstring" where
  "collapseSpaces [] = []"
| "collapseSpaces (c # cs) =
     (if isWhiteSpace c then 32 # collapseSpaces (dropWhile isWhiteSpace cs)
      else c # collapseSpaces cs)"
  by pat_completeness auto
termination
proof (relation "measure length")
  show "wf (measure length)" by simp
next
  fix c :: nat and cs :: jstring
  have "length (dropWhile isWhiteSpace cs) \<le> length cs" by (rule length_dropWhile_le)
  then show "(dropWhile isWhiteSpace cs, c # cs) \<in> measure length" by simp
next
  fix c :: nat and cs :: jstring
  show "(cs, c # cs) \<in> measure length" by simp
qed

definition normalizeText :: "runtime \<Rightarrow> jstring \<Rightarrow> jstring" where
  "normalizeText rt txt =
     trim (collapseSpaces (removePunctuation (removeAccents
       (normalizeNFD rt (toLowerCase rt txt)))))"

text \<open>Scores are JavaScript numbers; the model computes with exact rationals.\<close>

definition exactMatch :: rat where "exactMatch = 10"
definition wordMatch :: rat where "wordMatch = 2"
definition partialMatch :: rat where "partialMatch = 1 / 2"
definition codeBonus :: rat where "codeBonus = 6 / 5"
definition headerBonus :: rat where "headerBonus = 13 / 10"

definition calculateWordMatchScore :: "jstring \<Rightarrow> jstring \<Rightarrow> rat" where
  "calculateWordMatchScore normalizedChunk normalizedTerm =
     foldl (\<lambda>score word.
              if length word < 2 then score
              else score
                   + of_nat (match_count (wordExact word) normalizedChunk) * wordMatch
                   + of_nat (match_count (wordPartial word) normalizedChunk) * partialMatch)
       0 (js_split (literal [32]) normalizedTerm)"

definition applyBonuses :: "jstring \<Rightarrow> rat \<Rightarrow> rat" where
  "applyBonuses chunk score =
     (let s1 = (if regex_test codeBlock chunk then score * codeBonus else score)
      in if regex_test hasHeader chunk then s1 * headerBonus else s1)"

definition calculateRelevanceScore :: "runtime \<Rightarrow> jstring \<Rightarrow> jstring list \<Rightarrow> rat" where
  "calculateRelevanceScore rt chunk searchTerms =
     (let normalizedChunk = normalizeText rt chunk
      in applyBonuses chunk
           (foldl (\<lambda>score term.
                     let normalizedTerm = normalizeText rt term
                     in if normalizedTerm = [] then score
                        else (if str_includes normalizedChunk normalizedTerm
                              then score + exactMatch *
                                     of_nat (length (js_split (literal [32]) normalizedTerm))
                              else score)
                             + calculateWordMatchScore normalizedChunk normalizedTerm)
              0 searchTerms))"

definition extractSearchTerms :: "jstring \<Rightarrow> jstring list" where
  "extractSearchTerms query =
     query # filter (\<lambda>word. 2 < length word) (js_split whiteSpaceRun query)"

text \<open>
  On strings of ASCII code units the two built-ins are these: \<open>toLowerCase\<close> maps
  \<open>A\<close>..\<open>Z\<close> to \<open>a\<close>..\<open>z\<close> and keeps every other unit, and NFD changes nothing.
\<close>

definition lowerAscii :: "nat \<Rightarrow> nat" where
  "lowerAscii c = (if 65 \<le> c \<and> c \<le> 90 then c + 32 else c)"

definition asciiRuntime :: runtime where
  "asciiRuntime = \<lparr> toLowerCase = map lowerAscii, normalizeNFD = (\<lambda>s. s) \<rparr>"

section \<open>Text chunker\<close>

definition MAX_CHUNK_SIZE :: nat where "MAX_CHUNK_SIZE = 2000"
definition MIN_CHUNK_SIZE :: nat where "MIN_CHUNK_SIZE = 10"
definition MAX_CONTEXT_SIZE :: nat where "MAX_CONTEXT_SIZE = 3000"

text \<open>The filter \<open>(chunk) => chunk.trim()\<close> keeps the chunks whose trimmed text is not
  empty.\<close>

definition nonBlank :: "jstring \<Rightarrow> bool" where
  "nonBlank chunk = (trim chunk \<noteq> [])"

text \<open>The loop of \<open>splitBySentences\<close> over the sentences, on the pair of \<open>result\<close> and
  \<open>currentChunk\<close>.\<close>

fun packSentences :: "jstring list \<Rightarrow> jstring list \<times> jstring \<Rightarrow> jstring list \<times> jstring" where
  "packSentences [] st = st"
| "packSentences (sentence # rest) (result, currentChunk) =
     (if MAX_CHUNK_SIZE < length (currentChunk @ sentence) \<and> currentChunk \<noteq> []
      then packSentences rest (result @ [trim currentChunk], sentence)
      else packSentences rest
             (result, currentChunk @ (if currentChunk \<noteq> [] then [32] else []) @ sentence))"

definition splitBySentences :: "jstring \<Rightarrow> jstring list" where
  "splitBySentences chunk =
     (case packSentences (js_split sentences chunk) ([], []) of
        (result, currentChunk) \<Rightarrow>
          if trim currentChunk \<noteq> [] then result @ [trim currentChunk] else result)"

fun refineChunks :: "jstring list \<Rightarrow> jstring list" where
  "refineChunks [] = []"
| "refineChunks (chunk # chunks) =
     (if length chunk \<le> MAX_CHUNK_SIZE then [chunk]
      else (let subChunks = filter nonBlank (js_split paragraphs chunk)
            in if 1 < length subChunks then subChunks else splitBySentences chunk))
     @ refineChunks chunks"

text \<open>\<open>splitMarkdownDocument\<close>: the chunks before the refinement (steps 1 to 3), then
  the refinement and the minimum size (steps 4 and 5).\<close>

definition primaryChunks :: "jstring \<Rightarrow> jstring list" where
  "primaryChunks document =
     (let headerSplit = filter nonBlank (js_split headers document)
      in if 1 < length headerSplit then headerSplit
         else (let separatorSplit = filter nonBlank (js_split horizontalRules document)
               in if 1 < length separatorSplit then separatorSplit
                  else filter nonBlank (js_split paragraphs document)))"

definition splitMarkdownDocument :: "jstring \<Rightarrow> jstring list" where
  "splitMarkdownDocument document =
     (let chunks = primaryChunks document;
          refinedChunks = refineChunks chunks
      in filter (\<lambda>chunk. MIN_CHUNK_SIZE < length (trim chunk)) refinedChunks)"

text \<open>\<open>Array.prototype.join\<close>\<close>

fun join :: "jstring \<Rightarrow> jstring list \<Rightarrow> jstring" where
  "join sep [] = []"
| "join sep [x] = x"
| "join sep (x # y # ys) = x @ sep @ join sep (y # ys)"

text \<open>
  \<open>getExpandedContext\<close>: reading an array out of range gives \<open>undefined\<close>, which the
  function tests for; the model tests the index instead.
\<close>

definition contextSeparator :: jstring where
  "contextSeparator = [10, 10, 45, 45, 45, 10, 10]"

definition getExpandedContext :: "jstring list \<Rightarrow> nat \<Rightarrow> jstring" where
  "getExpandedContext chunks targetIndex =
     (if length chunks \<le> targetIndex then []
      else
        (let targetChunk = chunks ! targetIndex;
             withPrev = (1 \<le> targetIndex \<and>
                length targetChunk + length (chunks ! (targetIndex - 1)) < MAX_CONTEXT_SIZE);
             totalSize = (if withPrev
                then length targetChunk + length (chunks ! (targetIndex - 1))
                else length targetChunk);
             withNext = (targetIndex + 1 < length chunks \<and>
                totalSize + length (chunks ! (targetIndex + 1)) < MAX_CONTEXT_SIZE)
         in join contextSeparator
              ((if withPrev then [chunks ! (targetIndex - 1)] else []) @ [targetChunk] @
               (if withNext then [chunks ! (targetIndex + 1)] else []))))"

section \<open>Format detector\<close>

subsection \<open>Patterns of the detector\<close>

text \<open>The position of the first suffix of the subject that satisfies a test.\<close>

fun index_where :: "(jstring \<Rightarrow> bool) \<Rightarrow> jstring \<Rightarrow> nat option" where
  "index_where P [] = (if P [] then Some 0 else None)"
| "index_where P (c # cs) = (if P (c # cs) then Some 0 else map_option Suc (index_where P cs))"

text \<open>
  \<open>isHtml: /^\s*<!DOCTYPE\s+html|^\s*<html|^\s*<head|^\s*<body|^\s*<div|^\s*<article|^\s*<section/i\<close>,
  without the \<open>m\<close> flag: \<open>^\<close> is the start of the subject.
\<close>

definition isHtml :: matcher where
  "isHtml prev rest =
     (if prev \<noteq> None then None
      else
        (let w = length (takeWhile isWhiteSpace rest);
             r = drop w rest;
             r2 = drop 9 r;
             w2 = length (takeWhile isWhiteSpace r2)
         in if matchesWord (str ''<!DOCTYPE'') r \<and> 1 \<le> w2 \<and> matchesWord (str ''html'') (drop w2 r2)
            then Some (w + 9 + w2 + 4)
            else if matchesWord (str ''<html'') r then Some (w + 5)
            else if matchesWord (str ''<head'') r then Some (w + 5)
            else if matchesWord (str ''<body'') r then Some (w + 5)
            else if matchesWord (str ''<div'') r then Some (w + 4)
            else if matchesWord (str ''<article'') r then Some (w + 8)
            else if matchesWord (str ''<section'') r then Some (w + 8)
            else None))"

text \<open>\<open>allTags: /<[^>]+>/g\<close>\<close>

definition allTags :: matcher where
  "allTags prev rest =
     (case rest of
        [] \<Rightarrow> None
      | c # r \<Rightarrow>
          (let k = length (takeWhile (\<lambda>d. d \<noteq> 62) r)
           in if c = 60 \<and> 1 \<le> k \<and> drop k r \<noteq> [] then Some (k + 2) else None))"

text \<open>\<open>headerTags: /<h([1-6])[^>]*>([\s\S]*?)<\/h\1>/gi\<close>: the opening tag runs to the
  first \<open>>\<close>, the element to the nearest closing tag of the same level.\<close>

definition headerTags :: matcher where
  "headerTags prev rest =
     (case rest of
        lt # h # d # r \<Rightarrow>
          (let k = length (takeWhile (\<lambda>c. c \<noteq> 62) r)
           in if lt = 60 \<and> canonicalize h = 72 \<and> 49 \<le> d \<and> d \<le> 54 \<and> drop k r \<noteq> []
              then (case index_where (matchesWord ([60, 47, 104, d, 62])) (drop (k + 1) r) of
                      Some i \<Rightarrow> Some (3 + k + 1 + i + 5)
                    | None \<Rightarrow> None)
              else None)
      | _ \<Rightarrow> None)"

text \<open>\<open>paragraphTags: /<p[^>]*>([\s\S]*?)<\/p>/gi\<close>\<close>

definition paragraphTags :: matcher where
  "paragraphTags prev rest =
     (case rest of
        lt # p # r \<Rightarrow>
          (let k = length (takeWhile (\<lambda>c. c \<noteq> 62) r)
           in if lt = 60 \<and> canonicalize p = 80 \<and> drop k r \<noteq> []
              then (case index_where (matchesWord (str ''</p>'')) (drop (k + 1) r) of
                      Some i \<Rightarrow> Some (2 + k + 1 + i + 4)
                    | None \<Rightarrow> None)
              else None)
      | _ \<Rightarrow> None)"

text \<open>\<open>/```[\s\S]*?```/g\<close>\<close>

definition fencedCode :: matcher where
  "fencedCode prev rest =
     (if prefix fence rest
      then (case index_of fence (drop 3 rest) of Some i \<Rightarrow> Some (3 + i + 3) | None \<Rightarrow> None)
      else None)"

text \<open>\<open>/^[\s]*[-*+]\s+/gm\<close>\<close>

definition listItem :: matcher where
  "listItem prev rest =
     (let w = length (takeWhile isWhiteSpace rest)
      in case drop w rest of
           [] \<Rightarrow> None
         | c # r \<Rightarrow>
             (let w2 = length (takeWhile isWhiteSpace r)
              in if atLineStart prev \<and> (c = 45 \<or> c = 42 \<or> c = 43) \<and> 1 \<le> w2
                 then Some (w + 1 + w2) else None))"

text \<open>\<open>/\[([^\]]+)\]\(([^)]+)\)/g\<close>\<close>

definition markdownLink :: matcher where
  "markdownLink prev rest =
     (case rest of
        [] \<Rightarrow> None
      | c # r \<Rightarrow>
          (let k = length (takeWhile (\<lambda>d. d \<noteq> 93) r)
           in case drop k r of
                rb # lp # r2 \<Rightarrow>
                  (let k2 = length (takeWhile (\<lambda>d. d \<noteq> 41) r2)
                   in if c = 91 \<and> 1 \<le> k \<and> rb = 93 \<and> lp = 40 \<and> 1 \<le> k2 \<and> drop k2 r2 \<noteq> []
                      then Some (1 + k + 2 + k2 + 1) else None)
              | _ \<Rightarrow> None))"

text \<open>\<open>/(\*\*|__)[^*_]+\1|(\*|_)[^*_]+\2/g\<close>: text without \<open>*\<close> and \<open>_\<close> between two
  copies of the same delimiter.\<close>

definition delimited :: "jstring \<Rightarrow> jstring \<Rightarrow> nat option" where
  "delimited delim rest =
     (let r = drop (length delim) rest;
          k = length (takeWhile (\<lambda>c. c \<noteq> 42 \<and> c \<noteq> 95) r)
      in if prefix delim rest \<and> 1 \<le> k \<and> prefix delim (drop k r)
         then Some (length delim + k + length delim) else None)"

definition emphasis :: matcher where
  "emphasis prev rest =
     (case delimited [42, 42] rest of Some n \<Rightarrow> Some n | None \<Rightarrow>
     (case delimited [95, 95] rest of Some n \<Rightarrow> Some n | None \<Rightarrow>
     (case delimited [42] rest of Some n \<Rightarrow> Some n | None \<Rightarrow> delimited [95] rest)))"

subsection \<open>The checks\<close>

datatype DocumentFormat = Json | Html | Markdown | Text

text \<open>The indicators are messages for the reader; the model keeps which message it is
  and the number it mentions.\<close>

datatype indicator =
    StartsWithJsonChar | ValidJson | JsonLikeButInvalid
  | HtmlRootDetected | HtmlTagsFound nat | HtmlHeadersDetected | HtmlParagraphsDetected
  | MarkdownHeaders | FencedBlocks nat | ListItems nat | MarkdownLinks nat
  | EmphasisDetected | HorizontalRulesDetected
  | NoSpecificFormat

record FormatDetectionResult =
  format :: DocumentFormat
  confidence :: rat
  indicators :: "indicator list"

text \<open>
  \<open>JSON.parse\<close> is a built-in; \<open>checkJson\<close> only uses whether it returns or throws, which
  the parameter \<open>parses\<close> tells for each text.  The test \<open>/^\s*[[{]/\<close> is on the subject
  from its start.
\<close>

definition startsWithJsonChar :: "jstring \<Rightarrow> bool" where
  "startsWithJsonChar content =
     (case dropWhile isWhiteSpace content of [] \<Rightarrow> False | c # _ \<Rightarrow> c = 91 \<or> c = 123)"

definition checkJson :: "(jstring \<Rightarrow> bool) \<Rightarrow> jstring \<Rightarrow> FormatDetectionResult" where
  "checkJson parses content =
     (let starts = startsWithJsonChar content;
          indicators1 = (if starts then [StartsWithJsonChar] else []);
          confidence1 = (if starts then 3 / 10 else 0);
          indicators2 = (if parses content then indicators1 @ [ValidJson]
                         else if starts then indicators1 @ [JsonLikeButInvalid]
                         else indicators1);
          confidence2 = (if parses content then confidence1 + 6 / 10
                         else if starts then 2 / 10
                         else confidence1)
      in \<lparr> format = Json, confidence = min confidence2 1, indicators = indicators2 \<rparr>)"

definition checkHtml :: "jstring \<Rightarrow> FormatDetectionResult" where
  "checkHtml content =
     (let root = regex_test isHtml content;
          tagCount = match_count allTags content;
          hdr = regex_test headerTags content;
          par = regex_test paragraphTags content;
          confidence1 = (if root then 5 / 10 else 0);
          confidence2 = (if 10 < tagCount then confidence1 + 3 / 10
                         else if 3 < tagCount then confidence1 + 15 / 100
                         else confidence1);
          confidence3 = (if hdr then confidence2 + 1 / 10 else confidence2);
          confidence4 = (if par then confidence3 + 1 / 10 else confidence3)
      in \<lparr> format = Html, confidence = min confidence4 1,
           indicators =
             (if root then [HtmlRootDetected] else []) @
             (if 3 < tagCount then [HtmlTagsFound tagCount] else []) @
             (if hdr then [HtmlHeadersDetected] else []) @
             (if par then [HtmlParagraphsDetected] else []) \<rparr>)"

definition checkMarkdown :: "jstring \<Rightarrow> FormatDetectionResult" where
  "checkMarkdown content =
     (let hdr = regex_test hasHeader content;
          fenced = match_count fencedCode content;
          items = match_count listItem content;
          links = match_count markdownLink content;
          emph = match_count emphasis content;
          rules = regex_test horizontalRules content;
          confidence1 = (if hdr then 3 / 10 else 0);
          confidence2 = (if 0 < fenced then confidence1 + 25 / 100 else confidence1);
          confidence3 = (if 2 < items then confidence2 + 15 / 100 else confidence2);
          confidence4 = (if 0 < links then confidence3 + 15 / 100 else confidence3);
          confidence5 = (if 0 < emph then confidence4 + 1 / 10 else confidence4);
          confidence6 = (if rules then confidence5 + 1 / 10 else confidence5)
      in \<lparr> format = Markdown, confidence = min confidence6 1,
           indicators =
             (if hdr then [MarkdownHeaders] else []) @
             (if 0 < fenced then [FencedBlocks fenced] else []) @
             (if 2 < items then [ListItems items] else []) @
             (if 0 < links then [MarkdownLinks links] else []) @
             (if 0 < emph then [EmphasisDetected] else []) @
             (if rules then [HorizontalRulesDetected] else []) \<rparr>)"

definition detectDocumentFormat :: "(jstring \<Rightarrow> bool) \<Rightarrow> jstring \<Rightarrow> FormatDetectionResult" where
  "detectDocumentFormat parses document =
     (let trimmed = trim document;
          jsonResult = checkJson parses trimmed
      in if 8 / 10 < confidence jsonResult then jsonResult
         else
           (let htmlResult = checkHtml trimmed
            in if 6 / 10 < confidence htmlResult then htmlResult
               else
                 (let markdownResult = checkMarkdown trimmed
                  in if 5 / 10 < confidence markdownResult then markdownResult
                     else \<lparr> format = Text, confidence = 5 / 10,
                            indicators = [NoSpecificFormat] \<rparr>)))"

section \<open>Chunking by format\<close>

text \<open>
  The strategies for HTML and JSON documents (\<open>splitHtmlDocument\<close>, \<open>splitJsonDocument\<close>)
  and \<open>JSON.parse\<close> are not needed by the properties below beyond the fact that each
  strategy returns a list of chunks; they are parameters, and every statement holds for all
  of them.
\<close>

record strategies =
  jsonParses :: "jstring \<Rightarrow> bool"
  splitHtmlDocument :: "jstring \<Rightarrow> jstring list"
  splitJsonDocument :: "jstring \<Rightarrow> jstring list"

record ChunkingOptions =
  forceFormat :: "DocumentFormat option"
  enableHtmlFallback :: "bool option"
  enableJsonFallback :: "bool option"

record SearchOptions = ChunkingOptions +
  maxResults :: "rat option"

definition detectFormat :: "(jstring \<Rightarrow> bool) \<Rightarrow> jstring \<Rightarrow> bool \<Rightarrow> bool \<Rightarrow> DocumentFormat" where
  "detectFormat parses document enableHtml enableJson =
     (let detection = detectDocumentFormat parses document
      in if format detection = Html \<and> enableHtml \<and> 5 / 10 < confidence detection then Html
         else if format detection = Json \<and> enableJson \<and> 7 / 10 < confidence detection then Json
         else format detection)"

definition splitIntoChunks :: "strategies \<Rightarrow> jstring \<Rightarrow> 'a ChunkingOptions_scheme \<Rightarrow> jstring list" where
  "splitIntoChunks st document options =
     (let fmt = (case forceFormat options of
                   Some f \<Rightarrow> f
                 | None \<Rightarrow>
                     detectFormat (jsonParses st) document
                       (case enableHtmlFallback options of Some b \<Rightarrow> b | None \<Rightarrow> True)
                       (case enableJsonFallback options of Some b \<Rightarrow> b | None \<Rightarrow> True))
      in case fmt of
           Html \<Rightarrow> splitHtmlDocument st document
         | Json \<Rightarrow> splitJsonDocument st document
         | _ \<Rightarrow> splitMarkdownDocument document)"

section \<open>Search orchestrator\<close>

record DocChunk =
  content :: jstring
  index :: nat
  score :: rat

record SearchResult =
  results :: "jstring list"
  totalChunks :: nat
  matchedChunks :: nat

text \<open>
  \<open>selectBestResults\<close>: the loop over the relevant chunks on the pair of \<open>results\<close> and
  \<open>usedIndices\<close>.  \<open>chunks.length - 1\<close> is \<open>-1\<close> for an empty array, so the comparison is
  on integers.
\<close>

definition claimIndices :: "jstring list \<Rightarrow> nat \<Rightarrow> nat set \<Rightarrow> nat set" where
  "claimIndices chunks i usedIndices =
     (let u1 = insert i usedIndices;
          u2 = (if 0 < i then insert (i - 1) u1 else u1)
      in if int i < int (length chunks) - 1 then insert (i + 1) u2 else u2)"

fun selectLoop ::
  "jstring list \<Rightarrow> rat \<Rightarrow> DocChunk list \<Rightarrow> jstring list \<times> nat set \<Rightarrow> jstring list \<times> nat set" where
  "selectLoop chunks maxR [] st = st"
| "selectLoop chunks maxR (chunk # rest) (res, usedIndices) =
     (if maxR \<le> of_nat (length res) then (res, usedIndices)
      else if index chunk \<in> usedIndices then selectLoop chunks maxR rest (res, usedIndices)
      else selectLoop chunks maxR rest
             (res @ [getExpandedContext chunks (index chunk)],
              claimIndices chunks (index chunk) usedIndices))"

definition selectBestResults :: "jstring list \<Rightarrow> DocChunk list \<Rightarrow> rat \<Rightarrow> jstring list" where
  "selectBestResults chunks relevantChunks maxR =
     fst (selectLoop chunks maxR relevantChunks ([], {}))"

text \<open>\<open>chunks.map((content, index) => ({content, index, score}))\<close>\<close>

definition scoreChunks :: "runtime \<Rightarrow> jstring list \<Rightarrow> jstring list \<Rightarrow> DocChunk list" where
  "scoreChunks rt chunks searchTerms =
     map (\<lambda>i. \<lparr> content = chunks ! i, index = i,
                score = calculateRelevanceScore rt (chunks ! i) searchTerms \<rparr>)
       [0 ..< length chunks]"

text \<open>\<open>.filter((chunk) => chunk.score > 0).sort((a, b) => b.score - a.score)\<close>; the sort of
  an array is stable.\<close>

definition relevantOf :: "DocChunk list \<Rightarrow> DocChunk list" where
  "relevantOf scoredChunks =
     sort_key (\<lambda>chunk. - score chunk) (filter (\<lambda>chunk. 0 < score chunk) scoredChunks)"

definition searchInDocs ::
  "runtime \<Rightarrow> strategies \<Rightarrow> jstring \<Rightarrow> jstring \<Rightarrow> 'a SearchOptions_scheme \<Rightarrow> SearchResult" where
  "searchInDocs rt st document searchQuery options =
     (let maxR = (case maxResults options of Some n \<Rightarrow> n | None \<Rightarrow> 3);
          chunks = splitIntoChunks st document options;
          searchTerms = extractSearchTerms searchQuery;
          scoredChunks = scoreChunks rt chunks searchTerms;
          relevantChunks = relevantOf scoredChunks
      in \<lparr> results = selectBestResults chunks relevantChunks maxR,
           totalChunks = length chunks,
           matchedChunks = length relevantChunks \<rparr>)"

text \<open>The structured output of the tool \<open>search_docs\<close> (\<open>error\<close> is optional), and the output
  that its handler prepares from the search result.\<close>

record SearchOutput =
  out_results :: "jstring list"
  total_chunks :: nat
  matched_chunks :: nat
  query :: jstring
  docs_url :: jstring
  out_error :: "jstring option"

definition noResultsMessage :: jstring where
  "noResultsMessage = str ''Nenhum resultado encontrado para a busca.''"

definition prepareOutput :: "SearchResult \<Rightarrow> jstring \<Rightarrow> jstring \<Rightarrow> SearchOutput" where
  "prepareOutput r search docsUrl =
     \<lparr> out_results = (if 0 < length (results r) then results r else [noResultsMessage]),
       total_chunks = totalChunks r,
       matched_chunks = matchedChunks r,
       query = search,
       docs_url = docsUrl,
       out_error = None \<rparr>"

text \<open>Default options: \<open>{}\<close>.\<close>

definition defaultOptions :: SearchOptions where
  "defaultOptions = \<lparr> forceFormat = None, enableHtmlFallback = None,
                       enableJsonFallback = None, maxResults = None \<rparr>"

text \<open>
  The source returns the expanded contexts only.  \<open>selectedSources\<close> runs the same loop
  (\<open>n\<close> is \<open>results.length\<close>) and lists the indices of the chunks for which a result is
  emitted, in the order of emission.
\<close>

fun selectedSources :: "jstring list \<Rightarrow> rat \<Rightarrow> DocChunk list \<Rightarrow> nat \<Rightarrow> nat set \<Rightarrow> nat list" where
  "selectedSources chunks maxR [] n usedIndices = []"
| "selectedSources chunks maxR (chunk # rest) n usedIndices =
     (if maxR \<le> of_nat n then []
      else if index chunk \<in> usedIndices then selectedSources chunks maxR rest n usedIndices
      else index chunk #
           selectedSources chunks maxR rest (Suc n) (claimIndices chunks (index chunk) usedIndices))"


text \<open>Inputs for the examples: strategies that parse nothing and return no chunk, and a
  document of three sections of which the first and the last mention apples.\<close>

definition exampleStrategies :: strategies where
  "exampleStrategies =
     \<lparr> jsonParses = (\<lambda>_. False), splitHtmlDocument = (\<lambda>_. []), splitJsonDocument = (\<lambda>_. []) \<rparr>"

definition appleDocument :: jstring where
  "appleDocument =
     str ''# A'' @ [10] @ str ''apple pie recipe'' @ [10, 10] @
     str ''# B'' @ [10] @ str ''nothing to see'' @ [10, 10] @
     str ''# C'' @ [10] @ str ''apple tart recipe''"

definition appleChunks :: "jstring list" where
  "appleChunks =
     [str ''# A'' @ [10] @ str ''apple pie recipe'' @ [10, 10],
      str ''# B'' @ [10] @ str ''nothing to see'' @ [10, 10],
      str ''# C'' @ [10] @ str ''apple tart recipe'']"

text \<open>The document of the scenario: \<open>"# Intro\nHello world.\n\n# Auth\nUse a bearer
  token."\<close>, and its two sections.\<close>

definition introSection :: jstring where
  "introSection = str ''# Intro'' @ [10] @ str ''Hello world.'' @ [10, 10]"

definition authSection :: jstring where
  "authSection = str ''# Auth'' @ [10] @ str ''Use a bearer token.''"

definition bearerDocument :: jstring where
  "bearerDocument = introSection @ authSection"

section \<open>What the properties assume of the runtime\<close>

text \<open>
  Facts of ECMAScript and the Unicode character database about the two built-ins: on a
  string of ASCII units \<open>toLowerCase\<close> maps \<open>A\<close>..\<open>Z\<close> to \<open>a\<close>..\<open>z\<close> and NFD changes
  nothing; and no decomposition of a lower-cased string contains one of \<open>A\<close>..\<open>Z\<close> (the
  characters whose canonical decomposition starts with an upper-case ASCII letter are
  upper-case letters themselves, and \<open>toLowerCase\<close> has replaced them).
\<close>

definition isAscii :: "nat \<Rightarrow> bool" where
  "isAscii c = (c < 128)"

definition isUpperAscii :: "nat \<Rightarrow> bool" where
  "isUpperAscii c = (65 \<le> c \<and> c \<le> 90)"

definition conforming :: "runtime \<Rightarrow> bool" where
  "conforming rt =
     ((\<forall>t. list_all isAscii t \<longrightarrow> toLowerCase rt t = map lowerAscii t) \<and>
      (\<forall>t. list_all isAscii t \<longrightarrow> normalizeNFD rt t = t) \<and>
      (\<forall>s. list_all (\<lambda>c. \<not> isUpperAscii c) (normalizeNFD rt (toLowerCase rt s))))"

text \<open>The shape of a normalized text: word characters and single spaces, none at either
  end.\<close>

definition normalForm :: "jstring \<Rightarrow> bool" where
  "normalForm r = (list_all (\<lambda>c. isWordChar c \<or> c = 32) r \<and> collapseSpaces r = r \<and> trim r = r)"

section \<open>The format detector as the specification words it\<close>

text \<open>
  The detector as a search through an ordered list of candidates, each with its threshold:
  the first candidate whose confidence exceeds its threshold is returned, and plain text
  with confidence 0.5 when there is none.
\<close>

definition firstAbove :: "(FormatDetectionResult \<times> rat) list \<Rightarrow> FormatDetectionResult option" where
  "firstAbove candidates =
     map_option fst (find (\<lambda>(r, threshold). threshold < confidence r) candidates)"

definition detect_spec :: "(jstring \<Rightarrow> bool) \<Rightarrow> jstring \<Rightarrow> FormatDetectionResult" where
  "detect_spec parses document =
     (case firstAbove [(checkJson parses (trim document), 8 / 10),
                       (checkHtml (trim document), 6 / 10),
                       (checkMarkdown (trim document), 5 / 10)] of
        Some r \<Rightarrow> r
      | None \<Rightarrow> \<lparr> format = Text, confidence = 5 / 10, indicators = [NoSpecificFormat] \<rparr>)"

text \<open>The confidence of the JSON check: 0.3 for the first character, 0.6 more for a text
  that parses, and exactly 0.2 for a text that starts like JSON and does not parse.\<close>

definition jsonConfidence_spec :: "bool \<Rightarrow> bool \<Rightarrow> rat" where
  "jsonConfidence_spec starts parsed =
     (if starts \<and> \<not> parsed then 2 / 10
      else (if starts then 3 / 10 else 0) + (if parsed then 6 / 10 else 0))"

section \<open>Smart fetch\<close>

text \<open>
  What a stage throws: an \<open>Error\<close> object with its message, or some other value.
  A call that may throw returns \<open>Inl\<close> of the thrown value or \<open>Inr\<close> of its result.
\<close>

datatype thrown = ErrorObject jstring | OtherValue

datatype ContentType = CtMarkdown | CtHtml | CtJson | CtOpenapi | CtText | CtUnknown

datatype FetchMethod = Direct | OpenapiSpec | Headless | HtmlExtract

record SmartFetchResult =
  success :: bool
  fetched :: "jstring option"
  contentType :: ContentType
  fetchMethod :: FetchMethod
  error :: "jstring option"
  url :: jstring
  specUrl :: "jstring option"

record SwaggerDetectionResult =
  isSwagger :: bool
  detectedSpecUrl :: "jstring option"

record RenderResult =
  renderSuccess :: bool
  renderText :: "jstring option"
  renderError :: "jstring option"

record SmartFetchOptions =
  tryOpenApiSpec :: bool
  useHeadlessFallback :: bool
  probeCommonEndpoints :: bool

text \<open>The body of an HTTP response: an object (\<open>typeof data === "object"\<close>), a string, or
  another value (a number, a boolean).\<close>

datatype 'spec httpData = ObjectData 'spec | StringData jstring | ScalarData

text \<open>
  The world around \<open>smartFetch\<close>.  The network, the browser and the renderer of
  specifications are given by what they answer:
  \<^item> \<open>httpGet\<close>, the client's \<open>get\<close>, throws on a failed request;
  \<^item> \<open>fetchOpenApiSpec\<close> wraps its request and its parsing in \<open>try\<close>/\<open>catch\<close> and
    returns \<open>null\<close> on any failure (\<open>None\<close>); it never throws;
  \<^item> \<open>probeCommonSpecEndpoints\<close> catches the failure of each request it makes, and
    throws when \<open>new URL(baseUrl)\<close> does;
  \<^item> \<open>isPuppeteerAvailable\<close> and \<open>renderSwaggerPage\<close> catch every failure and report it
    in their result;
  \<^item> \<open>openApiToMarkdown\<close> walks the specification object without a handler of its own:
    it throws a \<open>TypeError\<close> on an object that passes \<open>isValidOpenApiSpec\<close> and has, for
    example, \<open>null\<close> for a path item.
  The classification of a text (\<open>detectContentType\<close>, \<open>looksLikeSpa\<close>), the validity test
  of a specification, \<open>detectSwagger\<close> and \<open>JSON.stringify\<close> are total functions of their
  arguments; the properties below hold whatever they compute.
\<close>

record 'spec fetchEnv =
  httpGet :: "jstring \<Rightarrow> thrown + 'spec httpData"
  detectContentType :: "jstring \<Rightarrow> ContentType"
  looksLikeSpa :: "jstring \<Rightarrow> bool"
  isValidOpenApiSpec :: "'spec \<Rightarrow> bool"
  openApiToMarkdown :: "'spec \<Rightarrow> thrown + jstring"
  stringify :: "'spec \<Rightarrow> jstring"
  detectSwagger :: "jstring \<Rightarrow> jstring \<Rightarrow> SwaggerDetectionResult"
  fetchOpenApiSpec :: "jstring \<Rightarrow> 'spec option"
  probeCommonSpecEndpoints :: "jstring \<Rightarrow> thrown + jstring option"
  isPuppeteerAvailable :: bool
  renderSwaggerPage :: "jstring \<Rightarrow> RenderResult"

definition failed :: "FetchMethod \<Rightarrow> jstring \<Rightarrow> jstring \<Rightarrow> SmartFetchResult" where
  "failed m msg u =
     \<lparr> success = False, fetched = None, contentType = CtUnknown, fetchMethod = m,
       error = Some msg, url = u, specUrl = None \<rparr>"

definition fetchWithHttp :: "'spec fetchEnv \<Rightarrow> jstring \<Rightarrow> thrown + SmartFetchResult" where
  "fetchWithHttp env u =
     (case httpGet env u of
        Inl e \<Rightarrow> Inl e
      | Inr (ObjectData d) \<Rightarrow>
          if isValidOpenApiSpec env d
          then (case openApiToMarkdown env d of
                  Inl e \<Rightarrow> Inl e
                | Inr markdown \<Rightarrow>
                    Inr \<lparr> success = True,
                          fetched = Some (if markdown \<noteq> [] then markdown else stringify env d),
                          contentType = CtOpenapi, fetchMethod = Direct, error = None,
                          url = u, specUrl = None \<rparr>)
          else Inr \<lparr> success = True, fetched = Some (stringify env d), contentType = CtJson,
                     fetchMethod = Direct, error = None, url = u, specUrl = None \<rparr>
      | Inr (StringData d) \<Rightarrow>
          Inr \<lparr> success = True, fetched = Some d, contentType = detectContentType env d,
                fetchMethod = Direct, error = None, url = u, specUrl = None \<rparr>
      | Inr ScalarData \<Rightarrow> Inl (ErrorObject (str ''content.trim is not a function'')))"

text \<open>One attempt of \<open>trySwaggerExtraction\<close> on a candidate address of the specification:
  \<open>None\<close> when the specification is missing or not valid.\<close>

definition specAt :: "'spec fetchEnv \<Rightarrow> jstring \<Rightarrow> jstring \<Rightarrow> thrown + SmartFetchResult option" where
  "specAt env u candidate =
     (case fetchOpenApiSpec env candidate of
        None \<Rightarrow> Inr None
      | Some spec \<Rightarrow>
          if isValidOpenApiSpec env spec
          then (case openApiToMarkdown env spec of
                  Inl e \<Rightarrow> Inl e
                | Inr markdown \<Rightarrow>
                    Inr (Some \<lparr> success = True, fetched = Some markdown, contentType = CtOpenapi,
                                fetchMethod = OpenapiSpec, error = None, url = u,
                                specUrl = Some candidate \<rparr>))
          else Inr None)"

definition probeStep :: "'spec fetchEnv \<Rightarrow> jstring \<Rightarrow> SmartFetchOptions \<Rightarrow> thrown + SmartFetchResult" where
  "probeStep env u opts =
     (if probeCommonEndpoints opts
      then (case probeCommonSpecEndpoints env u of
              Inl e \<Rightarrow> Inl e
            | Inr None \<Rightarrow> Inr (failed OpenapiSpec (str ''Spec OpenAPI nao encontrada'') u)
            | Inr (Some candidate) \<Rightarrow>
                (case specAt env u candidate of
                   Inl e \<Rightarrow> Inl e
                 | Inr (Some r) \<Rightarrow> Inr r
                 | Inr None \<Rightarrow> Inr (failed OpenapiSpec (str ''Spec OpenAPI nao encontrada'') u)))
      else Inr (failed OpenapiSpec (str ''Spec OpenAPI nao encontrada'') u))"

definition trySwaggerExtraction ::
  "'spec fetchEnv \<Rightarrow> jstring \<Rightarrow> jstring \<Rightarrow> SmartFetchOptions \<Rightarrow> thrown + SmartFetchResult" where
  "trySwaggerExtraction env u html opts =
     (let detection = detectSwagger env html u
      in if \<not> isSwagger detection then Inr (failed OpenapiSpec (str ''Nao e Swagger'') u)
         else
           (case detectedSpecUrl detection of
              None \<Rightarrow> probeStep env u opts
            | Some candidate \<Rightarrow>
                if candidate = [] then probeStep env u opts
                else (case specAt env u candidate of
                        Inl e \<Rightarrow> Inl e
                      | Inr (Some r) \<Rightarrow> Inr r
                      | Inr None \<Rightarrow> probeStep env u opts)))"

definition tryHeadlessRender :: "'spec fetchEnv \<Rightarrow> jstring \<Rightarrow> SmartFetchResult" where
  "tryHeadlessRender env u =
     (if \<not> isPuppeteerAvailable env then failed Headless (str ''Puppeteer nao disponivel'') u
      else
        (let r = renderSwaggerPage env u
         in case renderText r of
              Some t \<Rightarrow>
                if renderSuccess r \<and> t \<noteq> []
                then \<lparr> success = True, fetched = Some t, contentType = CtText,
                       fetchMethod = Headless, error = None, url = u, specUrl = None \<rparr>
                else failed Headless
                       (case renderError r of
                          Some e \<Rightarrow> if e \<noteq> [] then e else str ''Falha na renderizacao''
                        | None \<Rightarrow> str ''Falha na renderizacao'') u
            | None \<Rightarrow>
                failed Headless
                  (case renderError r of
                     Some e \<Rightarrow> if e \<noteq> [] then e else str ''Falha na renderizacao''
                   | None \<Rightarrow> str ''Falha na renderizacao'') u))"

text \<open>The \<open>try\<close> block of \<open>smartFetch\<close>, then the function with its \<open>catch\<close>.\<close>

definition headlessOrDirect ::
  "'spec fetchEnv \<Rightarrow> jstring \<Rightarrow> SmartFetchOptions \<Rightarrow> SmartFetchResult \<Rightarrow> SmartFetchResult" where
  "headlessOrDirect env u opts httpResult =
     (if useHeadlessFallback opts \<and> success (tryHeadlessRender env u)
      then tryHeadlessRender env u
      else httpResult)"

definition smartFetchTry ::
  "'spec fetchEnv \<Rightarrow> jstring \<Rightarrow> SmartFetchOptions \<Rightarrow> thrown + SmartFetchResult" where
  "smartFetchTry env u opts =
     (case fetchWithHttp env u of
        Inl e \<Rightarrow> Inl e
      | Inr httpResult \<Rightarrow>
          if contentType httpResult \<noteq> CtHtml \<or>
             \<not> looksLikeSpa env (case fetched httpResult of Some c \<Rightarrow> c | None \<Rightarrow> [])
          then Inr httpResult
          else if tryOpenApiSpec opts
          then (case trySwaggerExtraction env u
                       (case fetched httpResult of Some c \<Rightarrow> c | None \<Rightarrow> []) opts of
                  Inl e \<Rightarrow> Inl e
                | Inr swaggerResult \<Rightarrow>
                    if success swaggerResult then Inr swaggerResult
                    else Inr (headlessOrDirect env u opts httpResult))
          else Inr (headlessOrDirect env u opts httpResult))"

definition smartFetch :: "'spec fetchEnv \<Rightarrow> jstring \<Rightarrow> SmartFetchOptions \<Rightarrow> SmartFetchResult" where
  "smartFetch env u opts =
     (case smartFetchTry env u opts of
        Inr r \<Rightarrow> r
      | Inl e \<Rightarrow>
          failed Direct
            (case e of ErrorObject message \<Rightarrow> message | OtherValue \<Rightarrow> str ''Erro desconhecido'')
            u)"

section \<open>The tool \<open>search_docs\<close>\<close>

text \<open>
  The tool is registered with the input schema
  \<open>{ search: z.string().min(1), max_results: z.number().min(1).max(10).optional() }\<close>.
  The server checks the arguments of a call against this schema before it runs the
  handler; arguments that do not pass are answered with an error and the handler is not
  run.  \<open>validArguments\<close> is the schema.
\<close>

record Config =
  docsUrl :: jstring
  defaultMaxResults :: rat

definition validArguments :: "jstring \<Rightarrow> rat option \<Rightarrow> bool" where
  "validArguments search max_results =
     (1 \<le> length search \<and> (case max_results of None \<Rightarrow> True | Some n \<Rightarrow> 1 \<le> n \<and> n \<le> 10))"

text \<open>
  The handler.  \<open>fetchedDocument\<close> is what \<open>fetchDocument(docsUrl)\<close> gives, the document or
  an exception.  The handler calls \<open>searchInDocs(document, search, maxResults)\<close> with the
  number of results, which is \<open>searchInDocs\<close> with the options \<open>{ maxResults }\<close>
  (\<open>searchInDocsLegacy\<close>).  In its \<open>catch\<close>, \<open>formatHttpError(error, docsUrl).message\<close> is
  \<open>error.message\<close> for an \<open>Error\<close> and \<open>"Erro desconhecido"\<close> for any other value.
\<close>

definition toolOptions :: "rat \<Rightarrow> SearchOptions" where
  "toolOptions maxR = defaultOptions \<lparr> maxResults := Some maxR \<rparr>"

definition searchDocsHandler ::
  "runtime \<Rightarrow> strategies \<Rightarrow> Config \<Rightarrow> thrown + jstring \<Rightarrow> jstring \<Rightarrow> rat option \<Rightarrow> SearchOutput" where
  "searchDocsHandler rt st config fetchedDocument search max_results =
     (let maxR = (case max_results of Some n \<Rightarrow> n | None \<Rightarrow> defaultMaxResults config)
      in case fetchedDocument of
           Inr document \<Rightarrow>
             prepareOutput (searchInDocs rt st document search (toolOptions maxR)) search
               (docsUrl config)
         | Inl e \<Rightarrow>
             \<lparr> out_results = [], total_chunks = 0, matched_chunks = 0, query = search,
               docs_url = docsUrl config,
               out_error = Some (case e of ErrorObject message \<Rightarrow> message
                                 | OtherValue \<Rightarrow> str ''Erro desconhecido'') \<rparr>)"

text \<open>The tool as a caller reaches it: the schema first, then the handler.\<close>

datatype toolError = InvalidArguments

definition search_docs ::
  "runtime \<Rightarrow> strategies \<Rightarrow> Config \<Rightarrow> thrown + jstring \<Rightarrow> jstring \<Rightarrow> rat option
     \<Rightarrow> toolError + SearchOutput" where
  "search_docs rt st config fetchedDocument search max_results =
     (if validArguments search max_results
      then Inr (searchDocsHandler rt st config fetchedDocument search max_results)
      else Inl InvalidArguments)"

text \<open>A configuration for the examples.\<close>

definition exampleConfig :: Config where
  "exampleConfig = \<lparr> docsUrl = str ''http://localhost/docs'', defaultMaxResults = 3 \<rparr>"

text \<open>
  An example world: the page is the shell of a Swagger UI that names its specification, the
  specification is served and passes the validity test, and the renderer throws on it (as
  \<open>openApiToMarkdown\<close> does on \<open>{"paths": {"/x": null}}\<close>).  No headless browser.
\<close>

definition shellPage :: jstring where
  "shellPage = str ''<div id=swagger-ui></div><script>SwaggerUIBundle({url: /spec.json})</script>''"

definition brokenSpecWorld :: "nat fetchEnv" where
  "brokenSpecWorld =
     \<lparr> httpGet = (\<lambda>u. Inr (StringData shellPage)),
       detectContentType = (\<lambda>c. CtHtml),
       looksLikeSpa = (\<lambda>c. True),
       isValidOpenApiSpec = (\<lambda>spec. True),
       openApiToMarkdown = (\<lambda>spec. Inl (ErrorObject (str ''Cannot read properties of null''))),
       stringify = (\<lambda>spec. []),
       detectSwagger = (\<lambda>html u. \<lparr> isSwagger = True,
                                     detectedSpecUrl = Some (str ''http://api.test/spec.json'') \<rparr>),
       fetchOpenApiSpec = (\<lambda>u. Some 0),
       probeCommonSpecEndpoints = (\<lambda>u. Inr None),
       isPuppeteerAvailable = False,
       renderSwaggerPage = (\<lambda>u. \<lparr> renderSuccess = False, renderText = None, renderError = None \<rparr>) \<rparr>"

text \<open>The same world with no specification behind the address: every later stage reports
  a failure and none throws.\<close>

definition noSpecWorld :: "nat fetchEnv" where
  "noSpecWorld = brokenSpecWorld \<lparr> fetchOpenApiSpec := (\<lambda>u. None) \<rparr>"

text \<open>The world of \<open>brokenSpecWorld\<close> with a headless browser that renders the page.\<close>

definition renderedWorld :: "nat fetchEnv" where
  "renderedWorld =
     brokenSpecWorld \<lparr> isPuppeteerAvailable := True,
       renderSwaggerPage := (\<lambda>u. \<lparr> renderSuccess = True, renderText = Some (str ''# Pet API''),
                                    renderError = None \<rparr>) \<rparr>"

definition allStages :: SmartFetchOptions where
  "allStages = \<lparr> tryOpenApiSpec = True, useHeadlessFallback = True, probeCommonEndpoints = True \<rparr>"

definition orEmpty :: "jstring option \<Rightarrow> jstring" where
  "orEmpty c = (case c of Some t \<Rightarrow> t | None \<Rightarrow> [])"

section \<open>The score as the specification words it\<close>

text \<open>The words of a text: its maximal runs of units that are not white space.\<close>

fun wordsFrom :: "jstring \<Rightarrow> jstring \<Rightarrow> jstring list" where
  "wordsFrom cur [] = (if cur = [] then [] else [rev cur])"
| "wordsFrom cur (c # cs) =
     (if isWhiteSpace c
      then (if cur = [] then wordsFrom [] cs else rev cur # wordsFrom [] cs)
      else wordsFrom (c # cur) cs)"

definition wordsOf :: "jstring \<Rightarrow> jstring list" where
  "wordsOf s = wordsFrom [] s"

text \<open>
  Occurrences of a word in a text, by position.  An occurrence at position \<open>i\<close> is at a
  word boundary when exactly one of the units before and at \<open>i\<close> is a word character; an
  exact occurrence also ends at a word boundary.
\<close>

definition prevAt :: "jstring \<Rightarrow> nat \<Rightarrow> nat option" where
  "prevAt s i = (if i = 0 then None else Some (s ! (i - 1)))"

definition prefixOccurrences :: "jstring \<Rightarrow> jstring \<Rightarrow> nat" where
  "prefixOccurrences word s =
     length (filter (\<lambda>i. wordBoundary (prevAt s i) (drop i s) \<and> prefix word (drop i s))
       [0 ..< Suc (length s)])"

definition exactOccurrences :: "jstring \<Rightarrow> jstring \<Rightarrow> nat" where
  "exactOccurrences word s =
     length (filter (\<lambda>i. wordBoundary (prevAt s i) (drop i s) \<and> prefix word (drop i s) \<and>
                          wordBoundary (prevAt s (i + length word)) (drop (i + length word) s))
       [0 ..< Suc (length s)])"

definition termScore_spec :: "jstring \<Rightarrow> jstring \<Rightarrow> rat" where
  "termScore_spec normalizedChunk normalizedTerm =
     (if str_includes normalizedChunk normalizedTerm
      then 10 * of_nat (length (wordsOf normalizedTerm)) else 0)
     + sum_list (map (\<lambda>word. 2 * of_nat (exactOccurrences word normalizedChunk)
                             + (1 / 2) * of_nat (prefixOccurrences word normalizedChunk))
         (filter (\<lambda>word. 2 \<le> length word) (wordsOf normalizedTerm)))"

definition score_spec :: "runtime \<Rightarrow> jstring \<Rightarrow> jstring list \<Rightarrow> rat" where
  "score_spec rt chunk searchTerms =
     sum_list (map (\<lambda>term. termScore_spec (normalizeText rt chunk) (normalizeText rt term))
                 searchTerms)
     * (if regex_test codeBlock chunk then 12 / 10 else 1)
     * (if regex_test hasHeader chunk then 13 / 10 else 1)"

text \<open>Auxiliary notions for the proofs: a text in which every space is followed by a word
  character, and the number of positions of a text, from the left, at which a matcher
  matches.\<close>

fun singleSpaced :: "jstring \<Rightarrow> bool" where
  "singleSpaced [] = True"
| "singleSpaced [c] = isWordChar c"
| "singleSpaced (c # d # ds) =
     ((isWordChar c \<or> (c = 32 \<and> isWordChar d)) \<and> singleSpaced (d # ds))"

fun matchPositions :: "matcher \<Rightarrow> nat option \<Rightarrow> jstring \<Rightarrow> nat" where
  "matchPositions m prev [] = (if m prev [] \<noteq> None then 1 else 0)"
| "matchPositions m prev (c # cs) =
     (if m prev (c # cs) \<noteq> None then 1 else 0) + matchPositions m (Some c) cs"

section \<open>Appending a term to a chunk\<close>

text \<open>
  One more fact of the built-ins, on white space (the units of \<open>\s\<close>).  \<open>unpunctuated\<close> is
  the text that \<open>normalizeText\<close> has before it collapses white space.  A run of white space
  separates what the built-ins do to the text before it from what they do to the text after
  it, as far as \<open>unpunctuated\<close> shows it:
  \<^item> \<open>toLowerCase\<close> maps every character by itself, except that it chooses between the two
    lower-case forms of the capital sigma by the letters around it; both forms are outside
    \<open>\w\<close> and \<open>\s\<close> and become a space.  (The unit U+FEFF is white space for \<open>\s\<close> and is
    ignored by that choice, so \<open>toLowerCase\<close> alone is not local across it.)  White space has
    no lower-case mapping.
  \<^item> NFD maps a white-space character to a white-space character (U+2000 and U+2001 to
    U+2002 and U+2003, every other one to itself); white space has canonical class 0, so no
    reordering crosses it.
\<close>

definition unpunctuated :: "runtime \<Rightarrow> jstring \<Rightarrow> jstring" where
  "unpunctuated rt txt = removePunctuation (removeAccents (normalizeNFD rt (toLowerCase rt txt)))"

definition whiteSpaceLocal :: "runtime \<Rightarrow> bool" where
  "whiteSpaceLocal rt =
     (\<forall>a w b. w \<noteq> [] \<and> list_all isWhiteSpace w \<longrightarrow>
        (\<exists>w'. w' \<noteq> [] \<and> list_all isWhiteSpace w' \<and>
           unpunctuated rt (a @ w @ b) = unpunctuated rt a @ w' @ unpunctuated rt b))"

text \<open>Two normalized texts put together, with a space between them when both have
  words; and a text without the white space at its end.\<close>

definition glue :: "jstring \<Rightarrow> jstring \<Rightarrow> jstring" where
  "glue a b = (if a = [] then b else if b = [] then a else a @ [32] @ b)"

definition trimEnd :: "jstring \<Rightarrow> jstring" where
  "trimEnd s = rev (dropWhile isWhiteSpace (rev s))"

section \<open>Example documents for the chunker\<close>

text \<open>Three sentences in one paragraph: 999 times \<open>a\<close> and a full stop, 999 times \<open>b\<close>
  and a full stop, and \<open>c.\<close>, separated by single spaces: 2004 units.\<close>

definition sentenceA :: jstring where
  "sentenceA = replicate 999 97 @ [46]"

definition sentenceB :: jstring where
  "sentenceB = replicate 999 98 @ [46]"

definition threeSentences :: jstring where
  "threeSentences = sentenceA @ [32] @ sentenceB @ [32] @ str ''c.''"

text \<open>A document with a horizontal rule between two paragraphs.\<close>

definition ruledDocument :: jstring where
  "ruledDocument = str ''aaaaaaaaaaaa'' @ [10] @ str ''---'' @ [10] @ str ''bbbbbbbbbbbb''"

section \<open>Auxiliary notions for the properties of the chunker\<close>

text \<open>The units of a text that are not white space.\<close>

definition stripWs :: "jstring \<Rightarrow> jstring" where
  "stripWs s = filter (\<lambda>c. \<not> isWhiteSpace c) s"

text \<open>The separators that \<open>split\<close> removes: the same loop as \<open>split_loop\<close>, collecting
  the text of each match at which a piece is emitted.\<close>

function sep_loop :: "matcher \<Rightarrow> nat option \<Rightarrow> jstring \<Rightarrow> jstring \<Rightarrow> jstring list" where
  "sep_loop m prev cur rest =
     (case rest of
        [] \<Rightarrow> []
      | c # cs \<Rightarrow>
          (case m prev rest of
             None \<Rightarrow> sep_loop m (Some c) (c # cur) cs
           | Some n \<Rightarrow>
               if n = 0 \<and> cur = [] then sep_loop m (Some c) (c # cur) cs
               else take n rest #
                 sep_loop m (if n = 0 then prev else Some (last (take n rest))) [] (drop n rest)))"
  by pat_completeness auto
termination
  by (relation "measure (\<lambda>(m, prev, cur, rest). 2 * length rest + (if cur = [] then 0 else 1))")
     auto

declare sep_loop.simps [simp del]

definition split_separators :: "matcher \<Rightarrow> jstring \<Rightarrow> jstring list" where
  "split_separators m s = sep_loop m None [] s"

text \<open>Pieces and separators put back in their order.\<close>

fun weave :: "jstring list \<Rightarrow> jstring list \<Rightarrow> jstring" where
  "weave [] seps = []"
| "weave (p # ps) [] = p @ weave ps []"
| "weave (p # ps) (s # seps) = p @ s @ weave ps seps"

text \<open>A separator matched by \<open>horizontalRules\<close>: three or more copies of \<open>-\<close>, of \<open>*\<close> or
  of \<open>=\<close>.\<close>

definition isRuleLine :: "jstring \<Rightarrow> bool" where
  "isRuleLine s = (3 \<le> length s \<and> (\<exists>c \<in> {45, 42, 61}. s = replicate (length s) c))"

text \<open>The document is cut at its horizontal rules: the header split gives at most one
  non-blank piece and the split at the rules more than one.\<close>

definition usesRules :: "jstring \<Rightarrow> bool" where
  "usesRules document =
     (\<not> 1 < length (filter nonBlank (js_split headers document)) \<and>
      1 < length (filter nonBlank (js_split horizontalRules document)))"

text \<open>A matcher that matches nowhere inside the text \<open>a\<close> when \<open>b\<close> follows it.\<close>

fun unmatched :: "matcher \<Rightarrow> nat option \<Rightarrow> jstring \<Rightarrow> jstring \<Rightarrow> bool" where
  "unmatched m prev [] b = True"
| "unmatched m prev (c # cs) b = (m prev (c # cs @ b) = None \<and> unmatched m (Some c) cs b)"

definition lastOr :: "nat option \<Rightarrow> jstring \<Rightarrow> nat option" where
  "lastOr prev a = (if a = [] then prev else Some (last a))"


text \<open>The format on which \<open>splitIntoChunks\<close> decides (its constant \<open>format\<close>): the forced
  format if there is one, else the detected one.  Every format other than \<open>html\<close> and
  \<open>json\<close> takes the default branch, \<open>splitMarkdownDocument\<close>.\<close>

definition formatChosen :: "strategies \<Rightarrow> jstring \<Rightarrow> 'a ChunkingOptions_scheme \<Rightarrow> DocumentFormat" where
  "formatChosen st document options =
     (case forceFormat options of
        Some f \<Rightarrow> f
      | None \<Rightarrow>
          detectFormat (jsonParses st) document
            (case enableHtmlFallback options of Some b \<Rightarrow> b | None \<Rightarrow> True)
            (case enableJsonFallback options of Some b \<Rightarrow> b | None \<Rightarrow> True))"
section \<open>Properties of the search orchestrator\<close>

lemma claimIndices_mono: "usedIndices \<subseteq> claimIndices chunks i usedIndices"
  by (auto simp: claimIndices_def Let_def)

lemma claimIndices_self: "i \<in> claimIndices chunks i usedIndices"
  by (auto simp: claimIndices_def Let_def)

lemma claimIndices_near:
  assumes "p < length chunks" and "p \<notin> claimIndices chunks i usedIndices"
  shows "1 < \<bar>int p - int i\<bar>"
  using assms by (auto simp: claimIndices_def Let_def split: if_splits)

lemma selectLoop_trace:
  "selectLoop chunks maxR rel (res, usedIndices) = (res', used') \<Longrightarrow>
     res' = res @ map (getExpandedContext chunks) (selectedSources chunks maxR rel (length res) usedIndices)
     \<and> usedIndices \<subseteq> used'"
proof (induction rel arbitrary: res usedIndices)
  case Nil
  then show ?case by simp
next
  case (Cons chunk rest)
  show ?case
  proof (cases "maxR \<le> of_nat (length res)")
    case True
    with Cons.prems show ?thesis by simp
  next
    case False
    show ?thesis
    proof (cases "index chunk \<in> usedIndices")
      case True
      with False Cons.prems Cons.IH[of res usedIndices] show ?thesis by simp
    next
      case notused: False
      from False notused Cons.prems
      have "selectLoop chunks maxR rest (res @ [getExpandedContext chunks (index chunk)],
              claimIndices chunks (index chunk) usedIndices) = (res', used')" by simp
      from Cons.IH[OF this] False notused claimIndices_mono[of usedIndices chunks "index chunk"]
      show ?thesis by auto
    qed
  qed
qed

lemma selectedSources_fresh:
  "p \<in> set (selectedSources chunks maxR rel n usedIndices) \<Longrightarrow>
     p \<notin> usedIndices \<and> p \<in> index ` set rel"
proof (induction rel arbitrary: n usedIndices)
  case Nil
  then show ?case by simp
next
  case (Cons chunk rest)
  show ?case
  proof (cases "maxR \<le> of_nat n")
    case True
    with Cons.prems show ?thesis by simp
  next
    case False
    show ?thesis
    proof (cases "index chunk \<in> usedIndices")
      case True
      with False Cons.prems
      have "p \<in> set (selectedSources chunks maxR rest n usedIndices)" by simp
      from Cons.IH[OF this] show ?thesis by simp
    next
      case notused: False
      let ?u = "claimIndices chunks (index chunk) usedIndices"
      from False notused Cons.prems
      have "p = index chunk \<or> p \<in> set (selectedSources chunks maxR rest (Suc n) ?u)" by simp
      then show ?thesis
      proof
        assume "p = index chunk"
        with notused show ?thesis by simp
      next
        assume "p \<in> set (selectedSources chunks maxR rest (Suc n) ?u)"
        from Cons.IH[OF this] have "p \<notin> ?u" and "p \<in> index ` set rest" by simp_all
        moreover have "usedIndices \<subseteq> ?u" by (rule claimIndices_mono)
        ultimately show ?thesis by auto
      qed
    qed
  qed
qed

definition apart :: "nat list \<Rightarrow> bool" where
  "apart picks = (\<forall>i < length picks. \<forall>j < length picks. i \<noteq> j \<longrightarrow> 1 < \<bar>int (picks ! i) - int (picks ! j)\<bar>)"

lemma apart_Cons:
  assumes "apart ps" and "\<And>p. p \<in> set ps \<Longrightarrow> 1 < \<bar>int p - int x\<bar>"
  shows "apart (x # ps)"
  unfolding apart_def
proof (intro allI impI)
  fix i j assume ij: "i < length (x # ps)" "j < length (x # ps)" "i \<noteq> j"
  show "1 < \<bar>int ((x # ps) ! i) - int ((x # ps) ! j)\<bar>"
  proof (cases i)
    case 0
    then obtain j' where j: "j = Suc j'" using ij by (cases j) auto
    then have "ps ! j' \<in> set ps" using ij by simp
    from assms(2)[OF this] 0 j show ?thesis by simp
  next
    case (Suc i')
    show ?thesis
    proof (cases j)
      case 0
      have "ps ! i' \<in> set ps" using ij Suc by simp
      from assms(2)[OF this] 0 Suc show ?thesis by simp
    next
      case (Suc j')
      with \<open>i = Suc i'\<close> ij assms(1) show ?thesis by (auto simp: apart_def)
    qed
  qed
qed

lemma selectedSources_apart:
  "\<forall>c \<in> set rel. index c < length chunks \<Longrightarrow> apart (selectedSources chunks maxR rel n usedIndices)"
proof (induction rel arbitrary: n usedIndices)
  case Nil
  then show ?case by (simp add: apart_def)
next
  case (Cons chunk rest)
  show ?case
  proof (cases "maxR \<le> of_nat n \<or> index chunk \<in> usedIndices")
    case True
    then show ?thesis using Cons by (auto simp: apart_def)
  next
    case False
    let ?u = "claimIndices chunks (index chunk) usedIndices"
    have tail: "apart (selectedSources chunks maxR rest (Suc n) ?u)"
      using Cons by simp
    have near: "1 < \<bar>int p - int (index chunk)\<bar>"
      if "p \<in> set (selectedSources chunks maxR rest (Suc n) ?u)" for p
    proof -
      from selectedSources_fresh[OF that] have "p \<notin> ?u" and "p \<in> index ` set rest" by auto
      then have "p < length chunks" using Cons.prems by auto
      from claimIndices_near[OF this \<open>p \<notin> ?u\<close>] show ?thesis .
    qed
    from False apart_Cons[OF tail near] show ?thesis by simp
  qed
qed

lemma relevantOf_index:
  "c \<in> set (relevantOf (scoreChunks rt chunks terms)) \<Longrightarrow> index c < length chunks"
  by (auto simp: relevantOf_def scoreChunks_def)


lemma appleDocument_chunks:
  "splitIntoChunks exampleStrategies appleDocument defaultOptions = appleChunks"
  by code_simp

lemma appleDocument_picks:
  "selectedSources appleChunks 3
     (relevantOf (scoreChunks asciiRuntime appleChunks (extractSearchTerms (str ''apple'')))) 0 {}
   = [0, 2]"
  by code_simp

text \<open>
  C2.  For every document, query and options, the results of \<open>searchInDocs\<close> are the
  expanded contexts of the selected chunks, and any two distinct selected chunks have
  indices that differ by more than 1.  From any state of the selection loop the set of used
  indices only grows, and an index that is already in the set is never selected.
\<close>

theorem no_overlap:
  fixes options :: "'a SearchOptions_scheme"
  shows
  "(let chunks = splitIntoChunks st document options;
        relevantChunks = relevantOf (scoreChunks rt chunks (extractSearchTerms searchQuery));
        maxR = (case maxResults options of Some n \<Rightarrow> n | None \<Rightarrow> 3);
        picks = selectedSources chunks maxR relevantChunks 0 {}
    in results (searchInDocs rt st document searchQuery options)
         = map (getExpandedContext chunks) picks
       \<and> (\<forall>i < length picks. \<forall>j < length picks.
             i \<noteq> j \<longrightarrow> 1 < \<bar>int (picks ! i) - int (picks ! j)\<bar>))
   \<and> usedIndices \<subseteq> snd (selectLoop cs m rel (res, usedIndices))
   \<and> (\<forall>p \<in> set (selectedSources cs m rel n usedIndices). p \<notin> usedIndices)"
proof -
  let ?chunks = "splitIntoChunks st document options"
  let ?rel = "relevantOf (scoreChunks rt ?chunks (extractSearchTerms searchQuery))"
  let ?maxR = "(case maxResults options of Some n \<Rightarrow> n | None \<Rightarrow> 3)"
  obtain r u where ru: "selectLoop ?chunks ?maxR ?rel ([], {}) = (r, u)" by (cases "selectLoop ?chunks ?maxR ?rel ([], {})")
  from selectLoop_trace[OF ru]
  have 1: "results (searchInDocs rt st document searchQuery options)
         = map (getExpandedContext ?chunks) (selectedSources ?chunks ?maxR ?rel 0 {})"
    using ru by (simp add: searchInDocs_def Let_def selectBestResults_def)
  have "apart (selectedSources ?chunks ?maxR ?rel 0 {})"
    by (rule selectedSources_apart) (auto dest: relevantOf_index)
  then have 2: "\<forall>i < length (selectedSources ?chunks ?maxR ?rel 0 {}). \<forall>j < length (selectedSources ?chunks ?maxR ?rel 0 {}).
             i \<noteq> j \<longrightarrow> 1 < \<bar>int (selectedSources ?chunks ?maxR ?rel 0 {} ! i) - int (selectedSources ?chunks ?maxR ?rel 0 {} ! j)\<bar>"
    by (simp add: apart_def)
  obtain r' u' where ru': "selectLoop cs m rel (res, usedIndices) = (r', u')" by (cases "selectLoop cs m rel (res, usedIndices)")
  from selectLoop_trace[OF ru'] ru' have 3: "usedIndices \<subseteq> snd (selectLoop cs m rel (res, usedIndices))" by simp
  have 4: "\<forall>p \<in> set (selectedSources cs m rel n usedIndices). p \<notin> usedIndices"
    using selectedSources_fresh by blast
  from 1 2 3 4 show ?thesis by (simp add: Let_def)
qed


theorem no_overlap_witness:
  "selectedSources appleChunks 3
       (relevantOf (scoreChunks asciiRuntime appleChunks (extractSearchTerms (str ''apple'')))) 0 {}
     = [0, 2]
   \<and> 1 < \<bar>int ([0, 2 :: nat] ! 0) - int ([0, 2 :: nat] ! 1)\<bar>
   \<and> {1 :: nat} \<subseteq> snd (selectLoop appleChunks 3
       (relevantOf (scoreChunks asciiRuntime appleChunks (extractSearchTerms (str ''apple''))))
       ([], {1}))"
  using no_overlap [of exampleStrategies appleDocument defaultOptions asciiRuntime
      "str ''apple''" "{1}" appleChunks 3
      "relevantOf (scoreChunks asciiRuntime appleChunks (extractSearchTerms (str ''apple'')))"
      "[]" 0]
  by (simp add: Let_def appleDocument_chunks appleDocument_picks defaultOptions_def)

section \<open>Properties of the normalization\<close>

lemma length_collapseSpaces: "length (collapseSpaces x) \<le> length x"
proof (induction x rule: collapseSpaces.induct)
  case 1
  then show ?case by simp
next
  case (2 c cs)
  have "length (dropWhile isWhiteSpace cs) \<le> length cs" by (rule length_dropWhile_le)
  with 2 show ?case by (cases "isWhiteSpace c") auto
qed

lemma set_collapseSpaces:
  "c \<in> set (collapseSpaces x) \<Longrightarrow> c = 32 \<or> (c \<in> set x \<and> \<not> isWhiteSpace c)"
proof (induction x rule: collapseSpaces.induct)
  case 1
  then show ?case by simp
next
  case (2 d ds)
  show ?case
  proof (cases "isWhiteSpace d")
    case True
    with 2 have "c = 32 \<or> c \<in> set (collapseSpaces (dropWhile isWhiteSpace ds))" by simp
    then show ?thesis
    proof
      assume "c = 32" then show ?thesis by simp
    next
      assume "c \<in> set (collapseSpaces (dropWhile isWhiteSpace ds))"
      from 2(1)[OF True this] have "c = 32 \<or> (c \<in> set (dropWhile isWhiteSpace ds) \<and> \<not> isWhiteSpace c)" .
      then show ?thesis using set_dropWhileD[of c isWhiteSpace ds] by auto
    qed
  next
    case False
    with 2 show ?thesis by auto
  qed
qed

lemma collapseSpaces_fixed_tl:
  assumes "collapseSpaces (c # cs) = c # cs"
  shows "collapseSpaces cs = cs \<and> (isWhiteSpace c \<longrightarrow> c = 32 \<and> dropWhile isWhiteSpace cs = cs)"
proof (cases "isWhiteSpace c")
  case False
  with assms show ?thesis by simp
next
  case True
  with assms have c: "c = 32" and e: "collapseSpaces (dropWhile isWhiteSpace cs) = cs" by simp_all
  have "length cs \<le> length (dropWhile isWhiteSpace cs)"
    using length_collapseSpaces[of "dropWhile isWhiteSpace cs"] e by simp
  moreover have "length (dropWhile isWhiteSpace cs) \<le> length cs" by (rule length_dropWhile_le)
  ultimately have "length (dropWhile isWhiteSpace cs) = length cs" by simp
  moreover have "length (takeWhile isWhiteSpace cs) + length (dropWhile isWhiteSpace cs) = length cs"
    by (simp flip: length_append)
  ultimately have "takeWhile isWhiteSpace cs = []" by simp
  then have "dropWhile isWhiteSpace cs = cs"
    using takeWhile_dropWhile_id[of isWhiteSpace cs] by simp
  with c e True show ?thesis by simp
qed


lemma collapseSpaces_dropWhile_start:
  "dropWhile isWhiteSpace (collapseSpaces (dropWhile isWhiteSpace cs))
     = collapseSpaces (dropWhile isWhiteSpace cs)"
proof -
  define d where "d = dropWhile isWhiteSpace cs"
  have "d = [] \<or> \<not> isWhiteSpace (hd d)"
    unfolding d_def using hd_dropWhile[of isWhiteSpace cs] by blast
  then have "dropWhile isWhiteSpace (collapseSpaces d) = collapseSpaces d"
    by (cases d) auto
  then show ?thesis by (simp add: d_def)
qed

lemma collapseSpaces_idem: "collapseSpaces (collapseSpaces x) = collapseSpaces x"
proof (induction x rule: collapseSpaces.induct)
  case 1
  then show ?case by simp
next
  case (2 c cs)
  show ?case
  proof (cases "isWhiteSpace c")
    case True
    have ws32: "isWhiteSpace 32" by (simp add: isWhiteSpace_def)
    from True 2 ws32 show ?thesis by (simp add: collapseSpaces_dropWhile_start)
  next
    case False
    with 2 show ?thesis by simp
  qed
qed

lemma collapseSpaces_fixed_suffix:
  "collapseSpaces (xs @ ys) = xs @ ys \<Longrightarrow> collapseSpaces ys = ys"
proof (induction xs)
  case Nil
  then show ?case by simp
next
  case (Cons x xs)
  then have "collapseSpaces (x # (xs @ ys)) = x # (xs @ ys)" by simp
  from collapseSpaces_fixed_tl[OF this] Cons.IH show ?case by simp
qed

lemma collapseSpaces_fixed_prefix:
  "collapseSpaces (xs @ ys) = xs @ ys \<Longrightarrow> collapseSpaces xs = xs"
proof (induction xs)
  case Nil
  then show ?case by simp
next
  case (Cons x xs)
  then have fx: "collapseSpaces (x # (xs @ ys)) = x # (xs @ ys)" by simp
  from collapseSpaces_fixed_tl[OF fx]
  have tl: "collapseSpaces (xs @ ys) = xs @ ys"
    and ws: "isWhiteSpace x \<longrightarrow> x = 32 \<and> dropWhile isWhiteSpace (xs @ ys) = xs @ ys" by simp_all
  from Cons.IH[OF tl] have ih: "collapseSpaces xs = xs" .
  show ?case
  proof (cases "isWhiteSpace x")
    case False
    with ih show ?thesis by simp
  next
    case True
    with ws have x: "x = 32" and d: "dropWhile isWhiteSpace (xs @ ys) = xs @ ys" by simp_all
    have "dropWhile isWhiteSpace xs = xs"
    proof (cases xs)
      case Nil
      then show ?thesis by simp
    next
      case (Cons z zs)
      have "\<not> isWhiteSpace z"
      proof
        assume "isWhiteSpace z"
        with d Cons have "dropWhile isWhiteSpace (zs @ ys) = z # zs @ ys" by simp
        then have "length (dropWhile isWhiteSpace (zs @ ys)) = Suc (length (zs @ ys))" by simp
        moreover have "length (dropWhile isWhiteSpace (zs @ ys)) \<le> length (zs @ ys)"
          by (rule length_dropWhile_le)
        ultimately show False by simp
      qed
      with Cons show ?thesis by simp
    qed
    with True ih x show ?thesis by simp
  qed
qed

lemma collapseSpaces_trim: "collapseSpaces x = x \<Longrightarrow> collapseSpaces (trim x) = trim x"
proof -
  assume fx: "collapseSpaces x = x"
  let ?d = "dropWhile isWhiteSpace x"
  have "x = takeWhile isWhiteSpace x @ ?d" by simp
  with fx have "collapseSpaces (takeWhile isWhiteSpace x @ ?d) = takeWhile isWhiteSpace x @ ?d" by simp
  then have d: "collapseSpaces ?d = ?d" by (rule collapseSpaces_fixed_suffix)
  have "?d = rev (dropWhile isWhiteSpace (rev ?d)) @ rev (takeWhile isWhiteSpace (rev ?d))"
    by (metis rev_append rev_rev_ident takeWhile_dropWhile_id)
  with d have "collapseSpaces (rev (dropWhile isWhiteSpace (rev ?d)) @ rev (takeWhile isWhiteSpace (rev ?d)))
     = rev (dropWhile isWhiteSpace (rev ?d)) @ rev (takeWhile isWhiteSpace (rev ?d))" by simp
  then have "collapseSpaces (rev (dropWhile isWhiteSpace (rev ?d))) = rev (dropWhile isWhiteSpace (rev ?d))"
    by (rule collapseSpaces_fixed_prefix)
  then show ?thesis by (simp add: trim_def)
qed

lemma trim_ends:
  "trim x = [] \<or> (\<not> isWhiteSpace (hd (trim x)) \<and> \<not> isWhiteSpace (last (trim x)))"
proof (cases "trim x = []")
  case True
  then show ?thesis by simp
next
  case False
  let ?d = "dropWhile isWhiteSpace x"
  let ?e = "dropWhile isWhiteSpace (rev ?d)"
  from False have e: "?e \<noteq> []" by (simp add: trim_def)
  have d: "?d \<noteq> []"
  proof
    assume "?d = []"
    then have "?e = []" by (simp only: rev.simps(1) dropWhile.simps(1))
    with e show False by (simp only:)
  qed
  have 1: "\<not> isWhiteSpace (hd ?e)" using e hd_dropWhile by blast
  have "last ?e = last (rev ?d)" using e by (metis dropWhile_eq_Nil_conv dropWhile_last)
  also have "\<dots> = hd ?d" using d by (simp add: last_rev)
  finally have "last ?e = hd ?d" .
  moreover have "\<not> isWhiteSpace (hd ?d)" using d hd_dropWhile by blast
  ultimately have 2: "\<not> isWhiteSpace (last ?e)" by simp
  have "hd (trim x) = last ?e" "last (trim x) = hd ?e"
    using e by (simp_all add: trim_def hd_rev last_rev)
  with 1 2 show ?thesis by simp
qed

lemma trim_fixed:
  assumes "y = [] \<or> (\<not> isWhiteSpace (hd y) \<and> \<not> isWhiteSpace (last y))"
  shows "trim y = y"
proof (cases y)
  case Nil
  then show ?thesis by (simp add: trim_def)
next
  case (Cons c cs)
  with assms have h: "\<not> isWhiteSpace c" and l: "\<not> isWhiteSpace (last y)" by simp_all
  from h Cons have 1: "dropWhile isWhiteSpace y = y" by simp
  obtain r rs where r: "rev y = r # rs" using Cons by (cases "rev y") auto
  have "hd (rev y) = last y" using Cons by (simp add: hd_rev)
  with r l have "\<not> isWhiteSpace r" by simp
  with r have "dropWhile isWhiteSpace (rev y) = rev y" by simp
  with 1 show ?thesis by (simp add: trim_def)
qed

lemma trim_idem: "trim (trim x) = trim x"
  by (rule trim_fixed) (rule trim_ends)

lemma set_trim: "set (trim x) \<subseteq> set x"
proof -
  have "set (trim x) = set (dropWhile isWhiteSpace (rev (dropWhile isWhiteSpace x)))"
    by (simp add: trim_def)
  also have "\<dots> \<subseteq> set (rev (dropWhile isWhiteSpace x))" by (meson set_dropWhileD subsetI)
  also have "\<dots> \<subseteq> set x"
  proof
    fix c assume "c \<in> set (rev (dropWhile isWhiteSpace x))"
    then have "c \<in> set (dropWhile isWhiteSpace x)" by simp
    then show "c \<in> set x" by (rule set_dropWhileD)
  qed
  finally show ?thesis .
qed

lemma normalizeText_normalForm: "normalForm (normalizeText rt s)"
proof -
  let ?p = "removePunctuation (removeAccents (normalizeNFD rt (toLowerCase rt s)))"
  have p: "\<And>c. c \<in> set ?p \<Longrightarrow> isWordChar c \<or> isWhiteSpace c"
    by (auto simp: removePunctuation_def isWhiteSpace_def)
  have "\<And>c. c \<in> set (collapseSpaces ?p) \<Longrightarrow> isWordChar c \<or> c = 32"
    using set_collapseSpaces p by blast
  then have "\<And>c. c \<in> set (trim (collapseSpaces ?p)) \<Longrightarrow> isWordChar c \<or> c = 32"
    using set_trim by blast
  then have 1: "list_all (\<lambda>c. isWordChar c \<or> c = 32) (normalizeText rt s)"
    by (simp add: normalizeText_def list_all_iff)
  have 2: "collapseSpaces (normalizeText rt s) = normalizeText rt s"
    unfolding normalizeText_def by (rule collapseSpaces_trim) (rule collapseSpaces_idem)
  have 3: "trim (normalizeText rt s) = normalizeText rt s"
    unfolding normalizeText_def by (rule trim_idem)
  from 1 2 3 show ?thesis by (simp add: normalForm_def)
qed

lemma normalizeText_lower:
  assumes "conforming rt"
  shows "list_all (\<lambda>c. \<not> isUpperAscii c) (normalizeText rt s)"
proof -
  let ?n = "normalizeNFD rt (toLowerCase rt s)"
  from assms have n: "\<And>c. c \<in> set ?n \<Longrightarrow> \<not> isUpperAscii c"
    by (simp add: conforming_def list_all_iff)
  have "\<And>c. c \<in> set (removePunctuation (removeAccents ?n)) \<Longrightarrow> \<not> isUpperAscii c"
    using n by (auto simp: removePunctuation_def removeAccents_def isUpperAscii_def)
  then have "\<And>c. c \<in> set (collapseSpaces (removePunctuation (removeAccents ?n))) \<Longrightarrow> \<not> isUpperAscii c"
    using set_collapseSpaces by (fastforce simp: isUpperAscii_def)
  then have "\<And>c. c \<in> set (trim (collapseSpaces (removePunctuation (removeAccents ?n)))) \<Longrightarrow> \<not> isUpperAscii c"
    using set_trim by blast
  then show ?thesis by (simp add: normalizeText_def list_all_iff)
qed

lemma normalizeText_fixed:
  assumes "conforming rt" "normalForm r" "list_all (\<lambda>c. \<not> isUpperAscii c) r"
  shows "normalizeText rt r = r"
proof -
  from assms(2) have w: "\<And>c. c \<in> set r \<Longrightarrow> isWordChar c \<or> c = 32"
    and cf: "collapseSpaces r = r" and tf: "trim r = r"
    by (simp_all add: normalForm_def list_all_iff)
  have asc: "list_all isAscii r"
    unfolding list_all_iff isAscii_def
  proof
    fix c assume "c \<in> set r"
    from w[OF this] show "c < 128" by (auto simp: isWordChar_def)
  qed
  have "map lowerAscii r = r"
    using assms(3) by (auto simp: list_all_iff lowerAscii_def isUpperAscii_def intro: map_idI)
  with assms(1) asc have 1: "toLowerCase rt r = r" by (simp add: conforming_def)
  from assms(1) asc have 2: "normalizeNFD rt r = r" by (simp add: conforming_def)
  have "\<forall>c \<in> set r. \<not> (768 \<le> c \<and> c \<le> 879)"
  proof
    fix c assume "c \<in> set r"
    from w[OF this] show "\<not> (768 \<le> c \<and> c \<le> 879)" by (auto simp: isWordChar_def)
  qed
  then have 3: "removeAccents r = r"
    unfolding removeAccents_def by (rule filter_True)
  have 4: "removePunctuation r = r"
    unfolding removePunctuation_def
  proof (rule map_idI)
    fix c assume "c \<in> set r"
    from w[OF this] show "(if isWordChar c \<or> isWhiteSpace c then c else 32) = c" by auto
  qed
  from 1 2 3 4 cf tf show ?thesis by (simp add: normalizeText_def)
qed

lemma conforming_asciiRuntime: "conforming asciiRuntime"
  by (auto simp: conforming_def asciiRuntime_def list_all_iff lowerAscii_def isUpperAscii_def)

text \<open>
  C10.  The normalization of the scorer is idempotent: on every string, a second
  application of \<open>normalizeText\<close> changes nothing, for every runtime whose built-ins
  behave as stated in \<open>conforming\<close>.
\<close>

theorem normalizeText_idempotent:
  assumes "conforming rt"
  shows "normalizeText rt (normalizeText rt s) = normalizeText rt s"
  by (rule normalizeText_fixed [OF assms normalizeText_normalForm normalizeText_lower [OF assms]])

theorem normalizeText_idempotent_witness:
  "conforming asciiRuntime \<and>
   normalizeText asciiRuntime (normalizeText asciiRuntime (str ''  Hello,   World! ''))
     = normalizeText asciiRuntime (str ''  Hello,   World! '')"
  using normalizeText_idempotent [OF conforming_asciiRuntime, of "str ''  Hello,   World! ''"]
    conforming_asciiRuntime
  by simp

section \<open>The empty query\<close>

lemma normalizeText_empty:
  assumes "conforming rt"
  shows "normalizeText rt [] = []"
proof -
  from assms have "toLowerCase rt [] = []" "normalizeNFD rt [] = []"
    by (simp_all add: conforming_def)
  then show ?thesis
    by (simp add: normalizeText_def removeAccents_def removePunctuation_def trim_def)
qed

lemma extractSearchTerms_empty: "extractSearchTerms [] = [[]]"
  by (simp add: extractSearchTerms_def js_split_def whiteSpaceRun_def)

lemma applyBonuses_zero: "applyBonuses chunk 0 = 0"
  by (simp add: applyBonuses_def Let_def)

lemma score_empty_query:
  assumes "conforming rt"
  shows "calculateRelevanceScore rt chunk (extractSearchTerms []) = 0"
  using normalizeText_empty[OF assms]
  by (simp add: calculateRelevanceScore_def extractSearchTerms_empty Let_def applyBonuses_zero)

lemma relevantOf_empty_query:
  assumes "conforming rt"
  shows "relevantOf (scoreChunks rt chunks (extractSearchTerms [])) = []"
proof -
  have "filter (\<lambda>chunk. 0 < score chunk) (scoreChunks rt chunks (extractSearchTerms [])) = []"
    by (simp add: scoreChunks_def score_empty_query[OF assms] filter_empty_conv)
  then show ?thesis by (simp add: relevantOf_def)
qed

lemma normalizeText_space:
  assumes "conforming rt"
  shows "normalizeText rt [32] = []"
proof -
  have "list_all isAscii [32]" by (simp add: isAscii_def)
  with assms have "toLowerCase rt [32] = [32]" "normalizeNFD rt [32] = [32]"
    by (simp_all add: conforming_def lowerAscii_def)
  then show ?thesis
    by (simp add: normalizeText_def removeAccents_def removePunctuation_def trim_def
        isWhiteSpace_def)
qed

lemma extractSearchTerms_space: "extractSearchTerms [32] = [[32]]"
  by code_simp

lemma relevantOf_blank_term:
  assumes "normalizeText rt q = []"
  shows "relevantOf (scoreChunks rt chunks [q]) = []"
proof -
  have "calculateRelevanceScore rt chunk [q] = 0" for chunk
    using assms by (simp add: calculateRelevanceScore_def Let_def applyBonuses_zero)
  then have "filter (\<lambda>chunk. 0 < score chunk) (scoreChunks rt chunks [q]) = []"
    by (simp add: scoreChunks_def filter_empty_conv)
  then show ?thesis by (simp add: relevantOf_def)
qed

lemma handler_sentinel:
  assumes "results (searchInDocs rt st document search
             (toolOptions (case max_results of Some n \<Rightarrow> n | None \<Rightarrow> defaultMaxResults config))) = []"
  shows "out_results (searchDocsHandler rt st config (Inr document) search max_results)
     = [noResultsMessage]"
  using assms by (simp add: searchDocsHandler_def Let_def prepareOutput_def)

lemma handler_matched:
  "matched_chunks (searchDocsHandler rt st config (Inr document) search max_results)
     = matchedChunks (searchInDocs rt st document search
         (toolOptions (case max_results of Some n \<Rightarrow> n | None \<Rightarrow> defaultMaxResults config)))"
  by (simp add: searchDocsHandler_def Let_def prepareOutput_def)

text \<open>
  C8, as amended.  For the empty query \<open>extractSearchTerms\<close> returns the single term \<open>""\<close>;
  every chunk then scores 0, so for every document \<open>searchInDocs\<close> returns no result and
  counts no matched chunk.  The tool itself does not take the empty query: its schema asks
  for a query of at least one unit, and the call is refused before the handler runs.  The
  fixed message takes the place of the empty list for every query that the tool accepts
  and for which \<open>searchInDocs\<close> returns no result, such as the query of one space.
\<close>

theorem empty_query:
  fixes options :: "'a SearchOptions_scheme"
  assumes "conforming rt"
  shows "extractSearchTerms [] = [[]]
    \<and> calculateRelevanceScore rt chunk (extractSearchTerms []) = 0
    \<and> results (searchInDocs rt st document [] options) = []
    \<and> matchedChunks (searchInDocs rt st document [] options) = 0
    \<and> search_docs rt st config fetchedDocument [] max_results = Inl InvalidArguments
    \<and> (validArguments search max_results \<and>
        results (searchInDocs rt st document search
          (toolOptions (case max_results of Some n \<Rightarrow> n | None \<Rightarrow> defaultMaxResults config)))
          = []
        \<longrightarrow> map_sum (\<lambda>e. e) out_results
              (search_docs rt st config (Inr document) search max_results)
            = Inr [noResultsMessage])
    \<and> map_sum (\<lambda>e. e) out_results (search_docs rt st config (Inr document) [32] None)
        = Inr [noResultsMessage]
    \<and> map_sum (\<lambda>e. e) matched_chunks (search_docs rt st config (Inr document) [32] None)
        = Inr 0"
proof -
  have r: "results (searchInDocs rt st document [] options) = []"
    by (simp add: searchInDocs_def Let_def relevantOf_empty_query[OF assms] selectBestResults_def)
  have m: "matchedChunks (searchInDocs rt st document [] options) = 0"
    by (simp add: searchInDocs_def Let_def relevantOf_empty_query[OF assms])
  have refused: "search_docs rt st config fetchedDocument [] max_results = Inl InvalidArguments"
    by (simp add: search_docs_def validArguments_def)
  have sentinel: "map_sum (\<lambda>e. e) out_results
        (search_docs rt st config (Inr document) search max_results) = Inr [noResultsMessage]"
    if "validArguments search max_results"
      and "results (searchInDocs rt st document search
          (toolOptions (case max_results of Some n \<Rightarrow> n | None \<Rightarrow> defaultMaxResults config)))
          = []"
    using that by (simp add: search_docs_def handler_sentinel)
  have v: "validArguments [32] None" by (simp add: validArguments_def)
  have blank: "relevantOf (scoreChunks rt chunks (extractSearchTerms [32])) = []" for chunks
    unfolding extractSearchTerms_space
    by (rule relevantOf_blank_term) (rule normalizeText_space[OF assms])
  have sr: "results (searchInDocs rt st document [32] (toolOptions (defaultMaxResults config))) = []"
    by (simp add: searchInDocs_def Let_def blank selectBestResults_def)
  have sm: "matchedChunks (searchInDocs rt st document [32] (toolOptions (defaultMaxResults config)))
      = 0"
    by (simp add: searchInDocs_def Let_def blank)
  have s1: "map_sum (\<lambda>e. e) out_results (search_docs rt st config (Inr document) [32] None)
      = Inr [noResultsMessage]"
    using v sr handler_sentinel[where search = "[32]" and max_results = None]
    by (simp add: search_docs_def)
  have s2: "map_sum (\<lambda>e. e) matched_chunks (search_docs rt st config (Inr document) [32] None)
      = Inr 0"
    using v sm by (simp add: search_docs_def handler_matched)
  from r m extractSearchTerms_empty score_empty_query[OF assms] refused sentinel s1 s2
  show ?thesis by blast
qed

lemma zebra_facts:
  "validArguments (str ''zebra'') None"
  "results (searchInDocs asciiRuntime exampleStrategies appleDocument (str ''zebra'')
     (toolOptions (defaultMaxResults exampleConfig))) = []"
  by code_simp+

theorem empty_query_witness:
  "conforming asciiRuntime
   \<and> calculateRelevanceScore asciiRuntime (str ''# Auth'') (extractSearchTerms []) = 0
   \<and> results (searchInDocs asciiRuntime exampleStrategies appleDocument [] defaultOptions) = []
   \<and> search_docs asciiRuntime exampleStrategies exampleConfig (Inr appleDocument) [] None
       = Inl InvalidArguments
   \<and> validArguments (str ''zebra'') None
   \<and> map_sum (\<lambda>e. e) out_results
        (search_docs asciiRuntime exampleStrategies exampleConfig (Inr appleDocument)
           (str ''zebra'') None)
       = Inr [noResultsMessage]
   \<and> map_sum (\<lambda>e. e) out_results
        (search_docs asciiRuntime exampleStrategies exampleConfig (Inr appleDocument) [32] None)
       = Inr [noResultsMessage]"
proof -
  note e = empty_query [OF conforming_asciiRuntime, of "str ''# Auth''" exampleStrategies
      appleDocument defaultOptions exampleConfig "Inr appleDocument" None "str ''zebra''"]
  from e zebra_facts have "map_sum (\<lambda>e. e) out_results
        (search_docs asciiRuntime exampleStrategies exampleConfig (Inr appleDocument)
           (str ''zebra'') None)
       = Inr [noResultsMessage]"
    by simp
  with e conforming_asciiRuntime zebra_facts(1) show ?thesis by blast
qed

text \<open>
  The claim as stated, that the tool answers the empty query with the fixed message, fails:
  the handler alone would give the message, but the tool refuses the empty query and gives
  no output at all.
\<close>

theorem empty_query_counterexample:
  "search_docs asciiRuntime exampleStrategies exampleConfig (Inr appleDocument) [] None
     = Inl InvalidArguments
   \<and> validArguments [] None = False
   \<and> out_results
        (searchDocsHandler asciiRuntime exampleStrategies exampleConfig (Inr appleDocument) []
           None)
     = [noResultsMessage]"
  by code_simp

section \<open>Properties of the format detector\<close>

lemma checkJson_confidence:
  "confidence (checkJson parses txt)
     = jsonConfidence_spec (startsWithJsonChar txt) (parses txt)"
  by (simp add: checkJson_def jsonConfidence_spec_def Let_def)

lemma checkJson_format: "format (checkJson parses txt) = Json"
  by (simp add: checkJson_def Let_def)

lemma checkHtml_format: "format (checkHtml txt) = Html"
  by (simp add: checkHtml_def Let_def)

lemma checkMarkdown_format: "format (checkMarkdown txt) = Markdown"
  by (simp add: checkMarkdown_def Let_def)

lemma detect_refines: "detectDocumentFormat parses document = detect_spec parses document"
  by (simp add: detectDocumentFormat_def detect_spec_def firstAbove_def Let_def)

lemma json_wins_iff:
  "format (detectDocumentFormat parses document) = Json
     \<longleftrightarrow> startsWithJsonChar (trim document) \<and> parses (trim document)"
proof -
  have c: "8 / 10 < confidence (checkJson parses (trim document))
      \<longleftrightarrow> startsWithJsonChar (trim document) \<and> parses (trim document)"
    by (simp add: checkJson_confidence jsonConfidence_spec_def)
  show ?thesis
    unfolding detectDocumentFormat_def Let_def
    using c by (simp add: checkJson_format checkHtml_format checkMarkdown_format)
qed

text \<open>
  C6.  \<open>detectDocumentFormat\<close> returns the first of the JSON, HTML and Markdown results, in
  this order, whose confidence exceeds its threshold (0.8, 0.6, 0.5), and plain text with
  confidence 0.5 otherwise.  The JSON check has confidence 0.3 for an opening brace or
  bracket plus 0.6 for a text that parses, and exactly 0.2 for a text that opens like JSON
  and does not parse; JSON wins exactly for the texts that open like JSON and parse.
\<close>

theorem format_detection:
  "detectDocumentFormat parses document = detect_spec parses document
   \<and> format (checkJson parses txt) = Json
   \<and> confidence (checkJson parses txt)
       = jsonConfidence_spec (startsWithJsonChar txt) (parses txt)
   \<and> (format (detectDocumentFormat parses document) = Json
       \<longleftrightarrow> startsWithJsonChar (trim document) \<and> parses (trim document))"
  using detect_refines checkJson_format checkJson_confidence json_wins_iff by blast


lemma format_examples:
  "trim (str '' {} '') = str ''{}''"
  "startsWithJsonChar (str ''{}'')"
  "startsWithJsonChar (str ''{oops'')"
  by code_simp+

theorem format_detection_witness:
  "format (detectDocumentFormat (\<lambda>s. s = str ''{}'') (str '' {} '')) = Json
   \<and> confidence (checkJson (\<lambda>s. s = str ''{}'') (str ''{oops'')) = 2 / 10"
proof -
  note f = format_detection [of "\<lambda>s. s = str ''{}''" "str '' {} ''" "str ''{oops''"]
  have ne: "str ''{oops'' \<noteq> str ''{}''" by code_simp
  from f have "format (detectDocumentFormat (\<lambda>s. s = str ''{}'') (str '' {} '')) = Json
      \<longleftrightarrow> startsWithJsonChar (trim (str '' {} '')) \<and> trim (str '' {} '') = str ''{}''"
    by blast
  then have 1: "format (detectDocumentFormat (\<lambda>s. s = str ''{}'') (str '' {} '')) = Json"
    by (simp add: format_examples)
  from f have "confidence (checkJson (\<lambda>s. s = str ''{}'') (str ''{oops''))
      = jsonConfidence_spec (startsWithJsonChar (str ''{oops'')) (str ''{oops'' = str ''{}'')"
    by blast
  with ne have 2: "confidence (checkJson (\<lambda>s. s = str ''{}'') (str ''{oops'')) = 2 / 10"
    by (simp add: format_examples jsonConfidence_spec_def)
  from 1 2 show ?thesis by blast
qed

section \<open>Properties of the smart fetch\<close>

lemma fetchWithHttp_success: "fetchWithHttp env u = Inr h \<Longrightarrow> success h"
  by (auto simp: fetchWithHttp_def split: sum.splits httpData.splits if_splits)

lemma failed_success: "\<not> success (failed m msg u)"
  by (simp add: failed_def)

lemma headlessOrDirect_success: "success h \<Longrightarrow> success (headlessOrDirect env u opts h)"
  by (simp add: headlessOrDirect_def)

lemma smartFetchTry_success: "smartFetchTry env u opts = Inr r \<Longrightarrow> success r"
  by (auto simp: smartFetchTry_def headlessOrDirect_success
        split: sum.splits if_splits dest: fetchWithHttp_success)

lemma smartFetch_fails_iff:
  "\<not> success (smartFetch env u opts) \<longleftrightarrow> isl (smartFetchTry env u opts)"
  by (cases "smartFetchTry env u opts")
     (auto simp: smartFetch_def failed_success dest: smartFetchTry_success)

lemma smartFetchTry_throws_iff:
  "isl (smartFetchTry env u opts) \<longleftrightarrow>
     isl (fetchWithHttp env u)
     \<or> (\<exists>h. fetchWithHttp env u = Inr h \<and> contentType h = CtHtml
            \<and> looksLikeSpa env (orEmpty (fetched h)) \<and> tryOpenApiSpec opts
            \<and> isl (trySwaggerExtraction env u (orEmpty (fetched h)) opts))"
  by (auto simp: smartFetchTry_def orEmpty_def split: sum.splits if_splits)

lemma smartFetch_falls_through:
  assumes "fetchWithHttp env u = Inr h"
    and "trySwaggerExtraction env u (orEmpty (fetched h)) opts = Inr s"
  shows "smartFetch env u opts =
     (if contentType h \<noteq> CtHtml \<or> \<not> looksLikeSpa env (orEmpty (fetched h)) then h
      else if tryOpenApiSpec opts \<and> success s then s
      else if useHeadlessFallback opts \<and> success (tryHeadlessRender env u)
           then tryHeadlessRender env u
      else h)"
  using assms
  by (simp add: smartFetch_def smartFetchTry_def orEmpty_def headlessOrDirect_def)

text \<open>
  What the single handler of \<open>smartFetch\<close> gives.  A later stage that reports a failure is
  followed by the next one, down to the result of the direct fetch.  \<open>success = false\<close> is
  returned exactly when the direct fetch throws, or when the page is HTML that looks like a
  client-rendered shell, the extraction of the specification is enabled, and that
  extraction throws.  A direct fetch that returns always reports success.
\<close>

lemma smartFetch_outcomes:
  "(\<not> success (smartFetch env u opts) \<longleftrightarrow>
      isl (fetchWithHttp env u)
      \<or> (\<exists>h. fetchWithHttp env u = Inr h \<and> contentType h = CtHtml
             \<and> looksLikeSpa env (orEmpty (fetched h)) \<and> tryOpenApiSpec opts
             \<and> isl (trySwaggerExtraction env u (orEmpty (fetched h)) opts)))
   \<and> (fetchWithHttp env u = Inr h \<longrightarrow> success h)
   \<and> (fetchWithHttp env u = Inr h \<and>
        trySwaggerExtraction env u (orEmpty (fetched h)) opts = Inr s \<longrightarrow>
        smartFetch env u opts =
          (if contentType h \<noteq> CtHtml \<or> \<not> looksLikeSpa env (orEmpty (fetched h)) then h
           else if tryOpenApiSpec opts \<and> success s then s
           else if useHeadlessFallback opts \<and> success (tryHeadlessRender env u)
                then tryHeadlessRender env u
           else h))"
  using smartFetch_fails_iff[of env u opts] smartFetchTry_throws_iff[of env u opts]
    fetchWithHttp_success[of env u h] smartFetch_falls_through[of env u h opts s]
  by blast

lemma noSpecWorld_direct:
  "fetchWithHttp noSpecWorld (str ''http://api.test/docs'')
     = Inr \<lparr> success = True, fetched = Some shellPage, contentType = CtHtml,
             fetchMethod = Direct, error = None, url = str ''http://api.test/docs'',
             specUrl = None \<rparr>"
  by code_simp

lemma noSpecWorld_swagger:
  "trySwaggerExtraction noSpecWorld (str ''http://api.test/docs'') shellPage allStages
     = Inr (failed OpenapiSpec (str ''Spec OpenAPI nao encontrada'') (str ''http://api.test/docs''))"
  by code_simp

lemma noSpecWorld_facts:
  "looksLikeSpa noSpecWorld shellPage"
  "\<not> success (tryHeadlessRender noSpecWorld (str ''http://api.test/docs''))"
  "tryOpenApiSpec allStages"
  by code_simp+

text \<open>Where no stage throws and none succeeds, the result of the direct fetch comes
  back.\<close>

lemma smartFetch_falls_back:
  "smartFetch noSpecWorld (str ''http://api.test/docs'') allStages
     = \<lparr> success = True, fetched = Some shellPage, contentType = CtHtml,
         fetchMethod = Direct, error = None, url = str ''http://api.test/docs'',
         specUrl = None \<rparr>"
  using smartFetch_outcomes [of noSpecWorld "str ''http://api.test/docs''" allStages
      "\<lparr> success = True, fetched = Some shellPage, contentType = CtHtml,
         fetchMethod = Direct, error = None, url = str ''http://api.test/docs'',
         specUrl = None \<rparr>"
      "failed OpenapiSpec (str ''Spec OpenAPI nao encontrada'') (str ''http://api.test/docs'')"]
    noSpecWorld_direct noSpecWorld_swagger noSpecWorld_facts
  by (simp add: orEmpty_def failed_def)

text \<open>
  C9.  The handling of exceptions in \<open>smartFetch\<close>: an exception in a stage after the direct
  fetch is to be caught there and the next stage tried, down to the result of the direct
  fetch, so that \<open>success = false\<close> means that every stage failed or threw.  The code does
  not do this.  \<open>trySwaggerExtraction\<close> calls \<open>openApiToMarkdown\<close> with no handler of its
  own, and the one handler of \<open>smartFetch\<close> answers every exception with the failure of the
  whole fetch.  In \<open>renderedWorld\<close> the direct fetch succeeds and the headless renderer
  would succeed; the specification makes \<open>openApiToMarkdown\<close> throw, and \<open>smartFetch\<close>
  returns \<open>success = false\<close>, without content, under the method \<open>direct\<close>, and never tries
  the renderer.  The same happens without a browser, in \<open>brokenSpecWorld\<close>.
\<close>

theorem smartFetch_aborts:
  "fetchWithHttp renderedWorld (str ''http://api.test/docs'')
     = Inr \<lparr> success = True, fetched = Some shellPage, contentType = CtHtml,
             fetchMethod = Direct, error = None, url = str ''http://api.test/docs'',
             specUrl = None \<rparr>
   \<and> tryHeadlessRender renderedWorld (str ''http://api.test/docs'')
     = \<lparr> success = True, fetched = Some (str ''# Pet API''), contentType = CtText,
         fetchMethod = Headless, error = None, url = str ''http://api.test/docs'',
         specUrl = None \<rparr>
   \<and> smartFetch renderedWorld (str ''http://api.test/docs'') allStages
     = \<lparr> success = False, fetched = None, contentType = CtUnknown, fetchMethod = Direct,
         error = Some (str ''Cannot read properties of null''),
         url = str ''http://api.test/docs'', specUrl = None \<rparr>
   \<and> success (smartFetch brokenSpecWorld (str ''http://api.test/docs'') allStages) = False
   \<and> map_sum (\<lambda>e. e) success (fetchWithHttp brokenSpecWorld (str ''http://api.test/docs''))
     = Inr True"
  by code_simp

section \<open>The scenario of the bearer token\<close>

lemma normalizeText_ascii:
  assumes "conforming rt" and "list_all isAscii s"
  shows "normalizeText rt s = normalizeText asciiRuntime s"
proof -
  from assms have 1: "toLowerCase rt s = map lowerAscii s" by (simp add: conforming_def)
  have "list_all isAscii (map lowerAscii s)"
    using assms(2) by (auto simp: list_all_iff isAscii_def lowerAscii_def)
  with assms(1) have "normalizeNFD rt (map lowerAscii s) = map lowerAscii s"
    by (simp add: conforming_def)
  with 1 show ?thesis by (simp add: normalizeText_def asciiRuntime_def)
qed

lemma score_ascii:
  assumes "conforming rt" and "list_all isAscii chunk" and "list_all (list_all isAscii) terms"
  shows "calculateRelevanceScore rt chunk terms = calculateRelevanceScore asciiRuntime chunk terms"
proof -
  have c: "normalizeText rt chunk = normalizeText asciiRuntime chunk"
    using assms(1,2) by (rule normalizeText_ascii)
  have t: "\<And>t. t \<in> set terms \<Longrightarrow> normalizeText rt t = normalizeText asciiRuntime t"
    using assms(1,3) by (auto simp: list_all_iff intro: normalizeText_ascii)
  have "foldl (\<lambda>score term.
                     let normalizedTerm = normalizeText rt term
                     in if normalizedTerm = [] then score
                        else (if str_includes (normalizeText asciiRuntime chunk) normalizedTerm
                              then score + exactMatch *
                                     of_nat (length (js_split (literal [32]) normalizedTerm))
                              else score)
                             + calculateWordMatchScore (normalizeText asciiRuntime chunk) normalizedTerm)
              0 terms
      = foldl (\<lambda>score term.
                     let normalizedTerm = normalizeText asciiRuntime term
                     in if normalizedTerm = [] then score
                        else (if str_includes (normalizeText asciiRuntime chunk) normalizedTerm
                              then score + exactMatch *
                                     of_nat (length (js_split (literal [32]) normalizedTerm))
                              else score)
                             + calculateWordMatchScore (normalizeText asciiRuntime chunk) normalizedTerm)
              0 terms"
    by (rule foldl_cong) (simp_all add: t)
  with c show ?thesis by (simp add: calculateRelevanceScore_def)
qed

lemma bearer_detection_facts:
  "startsWithJsonChar (trim bearerDocument) = False"
  "confidence (checkHtml (trim bearerDocument)) = 0"
  "confidence (checkMarkdown (trim bearerDocument)) = 3 / 10"
  by code_simp+

lemma bearer_format: "format (detectDocumentFormat parses bearerDocument) = Text"
  by (simp add: detectDocumentFormat_def Let_def bearer_detection_facts
        checkJson_confidence jsonConfidence_spec_def)

lemma bearer_markdown_chunks:
  "splitMarkdownDocument bearerDocument = [introSection, authSection]"
  by code_simp

lemma bearer_chunks:
  "splitIntoChunks st bearerDocument defaultOptions = [introSection, authSection]"
  by (simp add: splitIntoChunks_def defaultOptions_def detectFormat_def Let_def bearer_format
        bearer_markdown_chunks)

lemma bearer_terms:
  "extractSearchTerms (str ''bearer token'') = [str ''bearer token'', str ''bearer'', str ''token'']"
  by code_simp

lemma bearer_ascii:
  "list_all isAscii introSection" "list_all isAscii authSection"
  "list_all (list_all isAscii) [str ''bearer token'', str ''bearer'', str ''token'']"
  by code_simp+

lemma bearer_scores:
  "calculateRelevanceScore asciiRuntime introSection
     [str ''bearer token'', str ''bearer'', str ''token''] = 0"
  "calculateRelevanceScore asciiRuntime authSection
     [str ''bearer token'', str ''bearer'', str ''token''] = 65"
  by code_simp+

lemma bearer_selection:
  "selectBestResults [introSection, authSection]
     [\<lparr> content = authSection, index = Suc 0, score = 65 \<rparr>] 3
   = [introSection @ contextSeparator @ authSection]"
  by code_simp

lemma bearer_contains: "str_includes (introSection @ contextSeparator @ authSection) authSection"
  by code_simp

text \<open>
  C7.  For the document \<open>"# Intro\nHello world.\n\n# Auth\nUse a bearer token."\<close> and the
  query \<open>"bearer token"\<close>, \<open>searchInDocs\<close> with the default options returns exactly one
  result, which contains the section \<open>Auth\<close> (preceded by its neighbour and the separator),
  with \<open>totalChunks = 2\<close> and \<open>matchedChunks = 1\<close>.
\<close>

theorem bearer_scenario:
  assumes "conforming rt"
  shows "searchInDocs rt st bearerDocument (str ''bearer token'') defaultOptions
     = \<lparr> results = [introSection @ contextSeparator @ authSection],
         totalChunks = 2, matchedChunks = 1 \<rparr>
   \<and> str_includes (introSection @ contextSeparator @ authSection) authSection"
proof -
  have s0: "calculateRelevanceScore rt introSection
     [str ''bearer token'', str ''bearer'', str ''token''] = 0"
    using score_ascii[OF assms bearer_ascii(1) bearer_ascii(3)] bearer_scores(1) by simp
  have s1: "calculateRelevanceScore rt authSection
     [str ''bearer token'', str ''bearer'', str ''token''] = 65"
    using score_ascii[OF assms bearer_ascii(2) bearer_ascii(3)] bearer_scores(2) by simp
  have up: "[0 ..< length [introSection, authSection]] = [0, 1]" by (simp add: upt_rec)
  have rel: "relevantOf (scoreChunks rt [introSection, authSection]
              [str ''bearer token'', str ''bearer'', str ''token''])
      = [\<lparr> content = authSection, index = 1, score = 65 \<rparr>]"
    unfolding scoreChunks_def up by (simp add: relevantOf_def s0 s1)
  have mx: "maxResults defaultOptions = None" by (simp add: defaultOptions_def)
  show ?thesis
    by (simp add: searchInDocs_def Let_def bearer_chunks bearer_terms rel bearer_selection
          bearer_contains mx)
qed

theorem bearer_scenario_witness:
  "searchInDocs asciiRuntime exampleStrategies bearerDocument (str ''bearer token'') defaultOptions
     = \<lparr> results = [introSection @ contextSeparator @ authSection],
         totalChunks = 2, matchedChunks = 1 \<rparr>"
  using bearer_scenario [OF conforming_asciiRuntime, of exampleStrategies] by simp

section \<open>The score and its reference definition\<close>

lemma wordChar_not_whiteSpace: "isWordChar c \<Longrightarrow> \<not> isWhiteSpace c"
  by (auto simp: isWordChar_def isWhiteSpace_def)

lemma whiteSpace_32: "isWhiteSpace 32"
  by (simp add: isWhiteSpace_def)

lemma dropWhile_id_hd: "dropWhile P (x # xs) = x # xs \<Longrightarrow> \<not> P x"
proof
  assume a: "dropWhile P (x # xs) = x # xs" and "P x"
  then have "dropWhile P xs = x # xs" by simp
  then have "length (dropWhile P xs) = Suc (length xs)" by simp
  moreover have "length (dropWhile P xs) \<le> length xs" by (rule length_dropWhile_le)
  ultimately show False by simp
qed

lemma split_loop_Nil: "split_loop m prev cur [] = [rev cur]"
  by (simp add: split_loop.simps[of m prev cur "[]"])

lemma split_loop_Cons:
  "split_loop m prev cur (c # cs) =
     (case m prev (c # cs) of
        None \<Rightarrow> split_loop m (Some c) (c # cur) cs
      | Some n \<Rightarrow>
          if n = 0 \<and> cur = [] then split_loop m (Some c) (c # cur) cs
          else rev cur #
            split_loop m (if n = 0 then prev else Some (last (take n (c # cs)))) []
              (drop n (c # cs)))"
  by (simp add: split_loop.simps[of m prev cur "c # cs"])

lemma singleSpaced_of_fixed:
  "list_all (\<lambda>c. isWordChar c \<or> c = 32) s \<Longrightarrow> collapseSpaces s = s \<Longrightarrow>
   (s \<noteq> [] \<longrightarrow> \<not> isWhiteSpace (last s)) \<Longrightarrow> singleSpaced s"
proof (induction s rule: singleSpaced.induct)
  case 1
  then show ?case by simp
next
  case (2 c)
  then show ?case using whiteSpace_32 by auto
next
  case (3 c d ds)
  from collapseSpaces_fixed_tl[OF "3.prems"(2)]
  have tl: "collapseSpaces (d # ds) = d # ds"
    and ws: "isWhiteSpace c \<longrightarrow> c = 32 \<and> dropWhile isWhiteSpace (d # ds) = d # ds" by simp_all
  have IH: "singleSpaced (d # ds)"
    using "3.IH" "3.prems" tl by simp
  have d: "isWordChar d \<or> d = 32" using "3.prems"(1) by simp
  have c: "isWordChar c \<or> c = 32" using "3.prems"(1) by simp
  show ?case
  proof (cases "isWordChar c")
    case True
    with IH show ?thesis by simp
  next
    case False
    with c have c32: "c = 32" by simp
    with ws whiteSpace_32 have "dropWhile isWhiteSpace (d # ds) = d # ds" by simp
    then have "\<not> isWhiteSpace d" by (rule dropWhile_id_hd)
    with d whiteSpace_32 have "isWordChar d" by auto
    with c32 IH show ?thesis by simp
  qed
qed

lemma normalForm_shape:
  assumes "normalForm s"
  shows "singleSpaced s" and "s = [] \<or> isWordChar (hd s)"
proof -
  from assms have w: "list_all (\<lambda>c. isWordChar c \<or> c = 32) s"
    and cf: "collapseSpaces s = s" and tf: "trim s = s"
    by (simp_all add: normalForm_def)
  from trim_ends[of s] tf have e: "s = [] \<or> (\<not> isWhiteSpace (hd s) \<and> \<not> isWhiteSpace (last s))"
    by simp
  then show "singleSpaced s" using singleSpaced_of_fixed[OF w cf] by blast
  show "s = [] \<or> isWordChar (hd s)"
  proof (cases s)
    case Nil
    then show ?thesis by simp
  next
    case (Cons c cs)
    with e have "\<not> isWhiteSpace c" by simp
    moreover from w Cons have "isWordChar c \<or> c = 32" by simp
    ultimately show ?thesis using whiteSpace_32 Cons by auto
  qed
qed

lemma singleSpaced_tl: "singleSpaced (c # cs) \<Longrightarrow> singleSpaced cs"
  by (cases cs) auto

lemma singleSpaced_head: "singleSpaced (c # cs) \<Longrightarrow> isWordChar c \<or> c = 32"
  by (cases cs) auto

lemma singleSpaced_after_space: "singleSpaced (32 # cs) \<Longrightarrow> cs \<noteq> [] \<and> isWordChar (hd cs)"
  by (cases cs) (auto simp: isWordChar_def)

lemma literal_space: "literal [32] prev (c # cs) = (if c = 32 then Some 1 else None)"
  by (simp add: literal_def)

lemma split_spaces_words:
  "singleSpaced rest \<Longrightarrow> (cur = [] \<longrightarrow> rest \<noteq> [] \<and> isWordChar (hd rest)) \<Longrightarrow>
   split_loop (literal [32]) prev cur rest = wordsFrom cur rest"
proof (induction rest arbitrary: prev cur)
  case Nil
  then show ?case by (simp add: split_loop_Nil)
next
  case (Cons c cs)
  have tl: "singleSpaced cs" using Cons.prems(1) by (rule singleSpaced_tl)
  show ?case
  proof (cases "c = 32")
    case True
    with Cons.prems(2) have cur: "cur \<noteq> []" by (auto simp: isWordChar_def)
    from True Cons.prems(1) have nx: "cs \<noteq> [] \<and> isWordChar (hd cs)"
      using singleSpaced_after_space by blast
    have "split_loop (literal [32]) (Some 32) [] cs = wordsFrom [] cs"
      using Cons.IH[OF tl, of "[]" "Some 32"] nx by simp
    with True cur show ?thesis
      by (simp add: split_loop_Cons literal_space whiteSpace_32)
  next
    case False
    with Cons.prems(1) have wc: "isWordChar c" using singleSpaced_head by blast
    then have nws: "\<not> isWhiteSpace c" by (rule wordChar_not_whiteSpace)
    have "split_loop (literal [32]) (Some c) (c # cur) cs = wordsFrom (c # cur) cs"
      using Cons.IH[OF tl, of "c # cur" "Some c"] by simp
    with False nws show ?thesis
      by (simp add: split_loop_Cons literal_space)
  qed
qed

lemma split_normalForm:
  assumes "normalForm s" and "s \<noteq> []"
  shows "js_split (literal [32]) s = wordsOf s"
  using split_spaces_words[OF normalForm_shape(1)[OF assms(1)], of "[]" None]
    normalForm_shape(2)[OF assms(1)] assms(2)
  by (simp add: js_split_def wordsOf_def)

lemma wordsFrom_members:
  "w \<in> set (wordsFrom cur rest) \<Longrightarrow>
     w \<noteq> [] \<and> set w \<subseteq> set cur \<union> {c \<in> set rest. \<not> isWhiteSpace c}"
proof (induction rest arbitrary: cur)
  case Nil
  then show ?case by (auto split: if_splits)
next
  case (Cons c cs)
  show ?case
  proof (cases "isWhiteSpace c")
    case True
    show ?thesis
    proof (cases "cur = []")
      case True
      with \<open>isWhiteSpace c\<close> Cons.prems have "w \<in> set (wordsFrom [] cs)" by simp
      from Cons.IH[OF this] show ?thesis by auto
    next
      case False
      with \<open>isWhiteSpace c\<close> Cons.prems have "w = rev cur \<or> w \<in> set (wordsFrom [] cs)" by simp
      then show ?thesis
      proof
        assume "w = rev cur" with False show ?thesis by auto
      next
        assume "w \<in> set (wordsFrom [] cs)"
        from Cons.IH[OF this] show ?thesis by auto
      qed
    qed
  next
    case False
    with Cons.prems have "w \<in> set (wordsFrom (c # cur) cs)" by simp
    from Cons.IH[OF this] False show ?thesis by auto
  qed
qed

lemma wordsOf_normalForm_members:
  assumes "normalForm s" and "w \<in> set (wordsOf s)"
  shows "w \<noteq> []" and "list_all isWordChar w" and "set w \<subseteq> set s"
proof -
  from wordsFrom_members[of w "[]" s] assms(2)
  have 1: "w \<noteq> []" and 2: "set w \<subseteq> {c \<in> set s. \<not> isWhiteSpace c}"
    by (simp_all add: wordsOf_def)
  from 1 show "w \<noteq> []" .
  from 2 show "set w \<subseteq> set s" by auto
  from assms(1) have "\<And>c. c \<in> set s \<Longrightarrow> isWordChar c \<or> c = 32"
    by (simp add: normalForm_def list_all_iff)
  with 2 whiteSpace_32 show "list_all isWordChar w" by (auto simp: list_all_iff)
qed

lemma count_from_Nil: "count_from m prev [] = (if m prev [] \<noteq> None then 1 else 0)"
  by (simp add: count_from.simps[of m prev "[]"])

lemma count_from_Cons:
  "count_from m prev (c # cs) =
     (case m prev (c # cs) of
        None \<Rightarrow> count_from m (Some c) cs
      | Some n \<Rightarrow>
          if n = 0 then 1 + count_from m (Some c) cs
          else 1 + count_from m (Some (last (take n (c # cs)))) (drop n (c # cs)))"
  by (simp add: count_from.simps[of m prev "c # cs"])

lemma isWordChar_canonicalize: "isWordChar (canonicalize c) = isWordChar c"
  by (auto simp: isWordChar_def canonicalize_def)

lemma skip_inside:
  assumes nb: "\<And>prev rest. \<not> wordBoundary prev rest \<Longrightarrow> m prev rest = None"
  shows "isWordChar x \<Longrightarrow> list_all isWordChar (take k xs) \<Longrightarrow> k \<le> length xs \<Longrightarrow>
     matchPositions m (Some x) xs = matchPositions m (Some (last (x # take k xs))) (drop k xs)"
proof (induction k arbitrary: x xs)
  case 0
  then show ?case by simp
next
  case (Suc k)
  then obtain y ys where xs: "xs = y # ys" by (cases xs) auto
  with Suc.prems have y: "isWordChar y" and ys: "list_all isWordChar (take k ys)"
    and k: "k \<le> length ys" by simp_all
  have "\<not> wordBoundary (Some x) (y # ys)" using Suc.prems(1) y by (simp add: wordBoundary_def)
  then have "m (Some x) (y # ys) = None" by (rule nb)
  then have "matchPositions m (Some x) xs = matchPositions m (Some y) ys" using xs by simp
  also have "\<dots> = matchPositions m (Some (last (y # take k ys))) (drop k ys)"
    using Suc.IH[OF y ys k] .
  finally show ?case using xs by simp
qed

lemma matchesWord_wordChars:
  assumes "matchesWord word rest" and "list_all isWordChar word"
  shows "list_all isWordChar (take (length word) rest)"
proof -
  from assms(1) have "map canonicalize (take (length word) rest) = map canonicalize word"
    by (simp add: matchesWord_def)
  then have "list_all isWordChar (map canonicalize (take (length word) rest))
      = list_all isWordChar (map canonicalize word)" by simp
  then show ?thesis using assms(2)
    by (simp add: list_all_iff isWordChar_canonicalize)
qed

lemma count_word_matches:
  assumes w: "word \<noteq> []" "list_all isWordChar word"
    and m1: "\<And>prev rest n. m prev rest = Some n \<Longrightarrow> n = length word \<and> matchesWord word rest"
    and m2: "\<And>prev rest. \<not> wordBoundary prev rest \<Longrightarrow> m prev rest = None"
  shows "count_from m prev rest = matchPositions m prev rest"
proof (induction "length rest" arbitrary: prev rest rule: less_induct)
  case less
  show ?case
  proof (cases rest)
    case Nil
    then show ?thesis by (simp add: count_from_Nil)
  next
    case (Cons c cs)
    show ?thesis
    proof (cases "m prev rest")
      case None
      have "count_from m (Some c) cs = matchPositions m (Some c) cs"
        using less(1)[of cs "Some c"] Cons by simp
      with None Cons show ?thesis by (simp add: count_from_Cons)
    next
      case (Some n)
      from m1[OF Some] have n: "n = length word" and mw: "matchesWord word rest" by simp_all
      from n w(1) have n0: "0 < n" by simp
      from mw n have len: "n \<le> length rest" by (simp add: matchesWord_def)
      from matchesWord_wordChars[OF mw w(2)] n have wc: "list_all isWordChar (take n rest)" by simp
      have c: "isWordChar c" using wc n0 Cons by (cases n) simp_all
      obtain k where k: "n = Suc k" using n0 by (cases n) auto
      have wck: "list_all isWordChar (take k cs)" using wc k Cons by simp
      have lk: "k \<le> length cs" using len k Cons by simp
      have IH: "count_from m (Some (last (take n rest))) (drop n rest)
          = matchPositions m (Some (last (take n rest))) (drop n rest)"
        using less(1)[of "drop n rest"] n0 Cons by simp
      have "matchPositions m (Some c) cs = matchPositions m (Some (last (c # take k cs))) (drop k cs)"
        using skip_inside[of m c k cs, OF m2 c wck lk] .
      also have "\<dots> = matchPositions m (Some (last (take n rest))) (drop n rest)"
        using k Cons by simp
      finally have sk: "matchPositions m (Some c) cs
          = matchPositions m (Some (last (take n rest))) (drop n rest)" .
      have "count_from m prev rest = 1 + count_from m (Some (last (take n rest))) (drop n rest)"
        using Some n0 Cons by (simp add: count_from_Cons)
      also have "\<dots> = 1 + matchPositions m (Some (last (take n rest))) (drop n rest)"
        using IH by simp
      also have "\<dots> = matchPositions m prev rest"
        using sk Some Cons by simp
      finally show ?thesis .
    qed
  qed
qed

lemma wordExact_shape:
  "wordExact word prev rest = Some n \<Longrightarrow> n = length word \<and> matchesWord word rest"
  by (auto simp: wordExact_def split: if_splits)

lemma wordPartial_shape:
  "wordPartial word prev rest = Some n \<Longrightarrow> n = length word \<and> matchesWord word rest"
  by (auto simp: wordPartial_def split: if_splits)

lemma wordExact_boundary: "\<not> wordBoundary prev rest \<Longrightarrow> wordExact word prev rest = None"
  by (simp add: wordExact_def)

lemma wordPartial_boundary: "\<not> wordBoundary prev rest \<Longrightarrow> wordPartial word prev rest = None"
  by (simp add: wordPartial_def)

lemma matchPositions_positions:
  "i \<le> length s \<Longrightarrow>
   matchPositions m (prevAt s i) (drop i s)
     = length (filter (\<lambda>j. m (prevAt s j) (drop j s) \<noteq> None) [i ..< Suc (length s)])"
proof (induction "length s - i" arbitrary: i)
  case 0
  then have i: "i = length s" by simp
  then show ?case by simp
next
  case (Suc d)
  then have i: "i < length s" by simp
  then have dr: "drop i s = s ! i # drop (Suc i) s" by (simp add: Cons_nth_drop_Suc)
  have pv: "prevAt s (Suc i) = Some (s ! i)" by (simp add: prevAt_def)
  have IH: "matchPositions m (prevAt s (Suc i)) (drop (Suc i) s)
     = length (filter (\<lambda>j. m (prevAt s j) (drop j s) \<noteq> None) [Suc i ..< Suc (length s)])"
    using Suc(1)[of "Suc i"] Suc(2) i by simp
  have up: "[i ..< Suc (length s)] = i # [Suc i ..< Suc (length s)]"
    using i by (simp add: upt_conv_Cons)
  show ?case
    unfolding up using IH dr pv by simp
qed

lemma canonicalize_inj:
  "\<not> isUpperAscii a \<Longrightarrow> \<not> isUpperAscii b \<Longrightarrow> canonicalize a = canonicalize b \<Longrightarrow> a = b"
  by (auto simp: canonicalize_def isUpperAscii_def split: if_splits)

lemma map_canonicalize_eq:
  "list_all (\<lambda>c. \<not> isUpperAscii c) xs \<Longrightarrow> list_all (\<lambda>c. \<not> isUpperAscii c) ys \<Longrightarrow>
   map canonicalize xs = map canonicalize ys \<longleftrightarrow> xs = ys"
proof (induction xs arbitrary: ys)
  case Nil
  then show ?case by auto
next
  case (Cons x xs)
  show ?case
  proof (cases ys)
    case Nil
    then show ?thesis by simp
  next
    case (Cons y ys')
    with Cons.prems Cons.IH[of ys'] canonicalize_inj[of x y] show ?thesis by auto
  qed
qed

lemma matchesWord_prefix:
  assumes "list_all (\<lambda>c. \<not> isUpperAscii c) word" and "list_all (\<lambda>c. \<not> isUpperAscii c) rest"
  shows "matchesWord word rest \<longleftrightarrow> prefix word rest"
proof -
  have "list_all (\<lambda>c. \<not> isUpperAscii c) (take (length word) rest)"
    using assms(2) by (auto simp: list_all_iff dest: in_set_takeD)
  from map_canonicalize_eq[OF this assms(1)]
  have "matchesWord word rest \<longleftrightarrow> length word \<le> length rest \<and> take (length word) rest = word"
    by (simp add: matchesWord_def)
  also have "\<dots> \<longleftrightarrow> prefix word rest"
    by (metis append_eq_conv_conj prefix_def prefix_length_le)
  finally show ?thesis .
qed


lemma lower_drop:
  "list_all (\<lambda>c. \<not> isUpperAscii c) s \<Longrightarrow> list_all (\<lambda>c. \<not> isUpperAscii c) (drop j s)"
  by (auto simp: list_all_iff dest: in_set_dropD)

lemma partial_count:
  assumes "word \<noteq> []" and "list_all isWordChar word"
    and lw: "list_all (\<lambda>c. \<not> isUpperAscii c) word"
    and ls: "list_all (\<lambda>c. \<not> isUpperAscii c) s"
  shows "match_count (wordPartial word) s = prefixOccurrences word s"
proof -
  have "match_count (wordPartial word) s = matchPositions (wordPartial word) None s"
    unfolding match_count_def
    using assms(1,2) wordPartial_shape wordPartial_boundary by (rule count_word_matches)
  also have "\<dots> = matchPositions (wordPartial word) (prevAt s 0) (drop 0 s)"
    by (simp add: prevAt_def)
  also have "\<dots> = length (filter (\<lambda>j. wordPartial word (prevAt s j) (drop j s) \<noteq> None)
                        [0 ..< Suc (length s)])"
    by (rule matchPositions_positions) simp
  also have "\<dots> = prefixOccurrences word s"
    unfolding prefixOccurrences_def
    by (rule arg_cong[where f=length], rule filter_cong)
       (simp_all add: wordPartial_def matchesWord_prefix[OF lw lower_drop[OF ls]])
  finally show ?thesis .
qed

lemma last_of_prefix:
  assumes "prefix word (drop j s)" and "word \<noteq> []"
  shows "Some (last (take (length word) (drop j s))) = prevAt s (j + length word)"
    and "drop (length word) (drop j s) = drop (j + length word) s"
proof -
  from assms(1) obtain zs where z: "drop j s = word @ zs" by (auto simp: prefix_def)
  then have t: "take (length word) (drop j s) = word" by simp
  have "length (drop j s) = length (word @ zs)" using z by (rule arg_cong)
  then have "length s - j = length word + length zs" by simp
  moreover have "0 < length word" using assms(2) by simp
  ultimately have len: "j + length word \<le> length s" by arith
  have "s ! (j + length word - 1) = (drop j s) ! (length word - 1)"
    using len assms(2) by (simp add: nth_drop Nat.add_diff_assoc Suc_leI)
  also have "\<dots> = word ! (length word - 1)" using z assms(2) by (simp add: nth_append)
  also have "\<dots> = last word" using assms(2) by (simp add: last_conv_nth)
  finally have "s ! (j + length word - 1) = last word" .
  then show "Some (last (take (length word) (drop j s))) = prevAt s (j + length word)"
    using t assms(2) by (simp add: prevAt_def)
  show "drop (length word) (drop j s) = drop (j + length word) s" by (simp add: add.commute)
qed

lemma exact_count:
  assumes "word \<noteq> []" and "list_all isWordChar word"
    and lw: "list_all (\<lambda>c. \<not> isUpperAscii c) word"
    and ls: "list_all (\<lambda>c. \<not> isUpperAscii c) s"
  shows "match_count (wordExact word) s = exactOccurrences word s"
proof -
  have "match_count (wordExact word) s = matchPositions (wordExact word) None s"
    unfolding match_count_def
    using assms(1,2) wordExact_shape wordExact_boundary by (rule count_word_matches)
  also have "\<dots> = matchPositions (wordExact word) (prevAt s 0) (drop 0 s)"
    by (simp add: prevAt_def)
  also have "\<dots> = length (filter (\<lambda>j. wordExact word (prevAt s j) (drop j s) \<noteq> None)
                        [0 ..< Suc (length s)])"
    by (rule matchPositions_positions) simp
  also have "\<dots> = exactOccurrences word s"
    unfolding exactOccurrences_def
  proof (rule arg_cong[where f=length], rule filter_cong)
    fix j
    show "(wordExact word (prevAt s j) (drop j s) \<noteq> None)
        = (wordBoundary (prevAt s j) (drop j s) \<and> prefix word (drop j s) \<and>
           wordBoundary (prevAt s (j + length word)) (drop (j + length word) s))"
    proof (cases "prefix word (drop j s)")
      case True
      from last_of_prefix[OF True assms(1)] True assms(1) show ?thesis
        by (simp add: wordExact_def matchesWord_prefix[OF lw lower_drop[OF ls]])
    next
      case False
      then show ?thesis
        by (simp add: wordExact_def matchesWord_prefix[OF lw lower_drop[OF ls]])
    qed
  qed simp
  finally show ?thesis .
qed


lemma foldl_cond_sum:
  fixes a :: rat
  shows "foldl (\<lambda>score x. if P x then score else score + f x + g x) a xs
     = a + sum_list (map (\<lambda>x. f x + g x) (filter (\<lambda>x. \<not> P x) xs))"
  by (induction xs arbitrary: a) (simp_all add: algebra_simps)

lemma foldl_plus_sum:
  fixes a :: rat
  shows "foldl (\<lambda>score x. score + f x) a xs = a + sum_list (map f xs)"
  by (induction xs arbitrary: a) (simp_all add: algebra_simps)

lemma wordMatchScore_spec:
  assumes nt: "normalForm nt" "nt \<noteq> []" "list_all (\<lambda>c. \<not> isUpperAscii c) nt"
    and c: "list_all (\<lambda>c. \<not> isUpperAscii c) chunk"
  shows "calculateWordMatchScore chunk nt
     = sum_list (map (\<lambda>word. 2 * of_nat (exactOccurrences word chunk)
                             + (1 / 2) * of_nat (prefixOccurrences word chunk))
         (filter (\<lambda>word. 2 \<le> length word) (wordsOf nt)))"
proof -
  have mem: "match_count (wordExact w) chunk = exactOccurrences w chunk
           \<and> match_count (wordPartial w) chunk = prefixOccurrences w chunk"
    if "w \<in> set (wordsOf nt)" for w
  proof -
    from wordsOf_normalForm_members[OF nt(1) that]
    have 1: "w \<noteq> []" and 2: "list_all isWordChar w" and 3: "set w \<subseteq> set nt" by simp_all
    from 3 nt(3) have 4: "list_all (\<lambda>c. \<not> isUpperAscii c) w" by (auto simp: list_all_iff)
    from exact_count[OF 1 2 4 c] partial_count[OF 1 2 4 c] show ?thesis by simp
  qed
  have "calculateWordMatchScore chunk nt
      = sum_list (map (\<lambda>word. of_nat (match_count (wordExact word) chunk) * wordMatch
                              + of_nat (match_count (wordPartial word) chunk) * partialMatch)
          (filter (\<lambda>word. \<not> length word < 2) (wordsOf nt)))"
    unfolding calculateWordMatchScore_def split_normalForm[OF nt(1,2)]
    by (simp add: foldl_cond_sum)
  also have "\<dots> = sum_list (map (\<lambda>word. 2 * of_nat (exactOccurrences word chunk)
                             + (1 / 2) * of_nat (prefixOccurrences word chunk))
         (filter (\<lambda>word. 2 \<le> length word) (wordsOf nt)))"
  proof -
    have f: "filter (\<lambda>word. \<not> length word < 2) (wordsOf nt)
        = filter (\<lambda>word. 2 \<le> length word) (wordsOf nt)"
      by (rule filter_cong) auto
    show ?thesis
      unfolding f
      by (rule arg_cong[where f=sum_list], rule map_cong)
         (auto simp: mem wordMatch_def partialMatch_def)
  qed
  finally show ?thesis .
qed

lemma wordsOf_Nil: "wordsOf [] = []"
  by (simp add: wordsOf_def)

lemma term_contribution:
  assumes "conforming rt"
  shows "(let normalizedTerm = normalizeText rt term
          in if normalizedTerm = [] then 0
             else (if str_includes (normalizeText rt chunk) normalizedTerm
                   then exactMatch * of_nat (length (js_split (literal [32]) normalizedTerm))
                   else 0)
                  + calculateWordMatchScore (normalizeText rt chunk) normalizedTerm)
     = termScore_spec (normalizeText rt chunk) (normalizeText rt term)"
proof (cases "normalizeText rt term = []")
  case True
  then show ?thesis by (simp add: termScore_spec_def wordsOf_Nil)
next
  case False
  note nf = normalizeText_normalForm[of rt "term"]
  note lt = normalizeText_lower[OF assms, of "term"]
  note lc = normalizeText_lower[OF assms, of chunk]
  from False wordMatchScore_spec[OF nf False lt lc] split_normalForm[OF nf False]
  show ?thesis by (simp add: termScore_spec_def Let_def exactMatch_def)
qed

lemma score_sum:
  assumes "conforming rt"
  shows "foldl (\<lambda>score term.
                     let normalizedTerm = normalizeText rt term
                     in if normalizedTerm = [] then score
                        else (if str_includes (normalizeText rt chunk) normalizedTerm
                              then score + exactMatch *
                                     of_nat (length (js_split (literal [32]) normalizedTerm))
                              else score)
                             + calculateWordMatchScore (normalizeText rt chunk) normalizedTerm)
              0 searchTerms
    = sum_list (map (\<lambda>term. termScore_spec (normalizeText rt chunk) (normalizeText rt term))
                 searchTerms)"
proof -
  have "foldl (\<lambda>score term.
                     let normalizedTerm = normalizeText rt term
                     in if normalizedTerm = [] then score
                        else (if str_includes (normalizeText rt chunk) normalizedTerm
                              then score + exactMatch *
                                     of_nat (length (js_split (literal [32]) normalizedTerm))
                              else score)
                             + calculateWordMatchScore (normalizeText rt chunk) normalizedTerm)
              0 searchTerms
     = foldl (\<lambda>score term. score + termScore_spec (normalizeText rt chunk) (normalizeText rt term))
         0 searchTerms"
  proof (rule foldl_cong)
    fix a :: rat and x
    show "(let normalizedTerm = normalizeText rt x
                     in if normalizedTerm = [] then a
                        else (if str_includes (normalizeText rt chunk) normalizedTerm
                              then a + exactMatch *
                                     of_nat (length (js_split (literal [32]) normalizedTerm))
                              else a)
                             + calculateWordMatchScore (normalizeText rt chunk) normalizedTerm)
        = a + termScore_spec (normalizeText rt chunk) (normalizeText rt x)"
      unfolding term_contribution[OF assms, of x chunk, symmetric]
      by (simp add: Let_def)
  qed simp_all
  then show ?thesis by (simp add: foldl_plus_sum)
qed

lemma termScore_spec_nonneg: "0 \<le> termScore_spec c t"
  unfolding termScore_spec_def
  by (intro add_nonneg_nonneg sum_list_nonneg) auto

lemma score_sum_unfolded:
  assumes "conforming rt"
  shows "foldl (\<lambda>score term.
          if normalizeText rt term = [] then score
          else (if str_includes (normalizeText rt chunk) (normalizeText rt term)
                then score + exactMatch *
                       of_nat (length (js_split (literal [32]) (normalizeText rt term)))
                else score)
               + calculateWordMatchScore (normalizeText rt chunk) (normalizeText rt term))
      0 searchTerms
    = sum_list (map (\<lambda>term. termScore_spec (normalizeText rt chunk) (normalizeText rt term))
                 searchTerms)"
  using score_sum[OF assms, of chunk searchTerms] by (simp add: Let_def)

lemma score_is_spec:
  assumes "conforming rt"
  shows "calculateRelevanceScore rt chunk searchTerms = score_spec rt chunk searchTerms
       \<and> 0 \<le> calculateRelevanceScore rt chunk searchTerms"
proof -
  have eq: "calculateRelevanceScore rt chunk searchTerms = score_spec rt chunk searchTerms"
    by (simp add: calculateRelevanceScore_def score_spec_def Let_def
          score_sum_unfolded[OF assms] applyBonuses_def codeBonus_def headerBonus_def)
  have "0 \<le> sum_list (map (\<lambda>term. termScore_spec (normalizeText rt chunk) (normalizeText rt term))
                 searchTerms)"
    by (rule sum_list_nonneg) (auto simp: termScore_spec_nonneg)
  then have "0 \<le> score_spec rt chunk searchTerms"
    by (simp add: score_spec_def)
  with eq show ?thesis by simp
qed


text \<open>
  C4.  For every chunk and every list of terms, \<open>calculateRelevanceScore\<close> computes the
  reference score: per term 10 times the number of words of the normalized term when the
  normalized chunk contains it, plus, for every word of at least two units, 2 per exact
  occurrence at word boundaries and 0.5 per occurrence that starts at a word boundary; the
  sum is multiplied once by the bonuses.  The score is not negative.
\<close>

theorem score_refines:
  assumes "conforming rt"
  shows "calculateRelevanceScore rt chunk searchTerms = score_spec rt chunk searchTerms
       \<and> 0 \<le> calculateRelevanceScore rt chunk searchTerms"
  using assms by (rule score_is_spec)

theorem score_refines_witness:
  "conforming asciiRuntime
   \<and> score_spec asciiRuntime authSection
        [str ''bearer token'', str ''bearer'', str ''token''] = 65"
  using score_refines [OF conforming_asciiRuntime, of authSection
      "[str ''bearer token'', str ''bearer'', str ''token'']"]
    bearer_scores(2) conforming_asciiRuntime
  by simp

section \<open>Appending a term to a chunk\<close>

lemma dropWhile_Cons_hd: "dropWhile P xs = e # es \<Longrightarrow> \<not> P e"
  by (metis hd_dropWhile list.sel(1) list.distinct(1))

lemma trimEnd_Nil: "trimEnd [] = []"
  by (simp add: trimEnd_def)

lemma trimEnd_Cons:
  "trimEnd (c # x) = (if isWhiteSpace c \<and> trimEnd x = [] then [] else c # trimEnd x)"
proof -
  have "dropWhile isWhiteSpace (rev x @ [c])
      = (if \<forall>y \<in> set (rev x). isWhiteSpace y then dropWhile isWhiteSpace [c]
         else dropWhile isWhiteSpace (rev x) @ [c])"
    by (simp add: dropWhile_append)
  then show ?thesis
    by (auto simp: trimEnd_def dropWhile_eq_Nil_conv)
qed

lemma trim_trimEnd: "trim s = trimEnd (dropWhile isWhiteSpace s)"
  by (simp add: trim_def trimEnd_def)

lemma wordsFrom_nonempty: "cur \<noteq> [] \<Longrightarrow> wordsFrom cur rest \<noteq> []"
  by (induction rest arbitrary: cur) auto

lemma wordsFrom_skip: "wordsFrom [] s = wordsFrom [] (dropWhile isWhiteSpace s)"
  by (induction s) auto

lemma join_Cons: "join sep (x # xs) = (if xs = [] then x else x @ sep @ join sep xs)"
  by (cases xs) auto

lemma unwords_wordsFrom:
  "cur \<noteq> [] \<Longrightarrow> join [32] (wordsFrom cur rest) = rev cur @ trimEnd (collapseSpaces rest)"
proof (induction "length rest" arbitrary: cur rest rule: less_induct)
  case less
  show ?case
  proof (cases rest)
    case Nil
    with less.prems show ?thesis by (simp add: trimEnd_Nil)
  next
    case (Cons c cs)
    show ?thesis
    proof (cases "isWhiteSpace c")
      case False
      have "join [32] (wordsFrom (c # cur) cs) = rev (c # cur) @ trimEnd (collapseSpaces cs)"
        using less.hyps[of cs "c # cur"] Cons by simp
      with False Cons show ?thesis by (simp add: trimEnd_Cons)
    next
      case True
      define d where "d = dropWhile isWhiteSpace cs"
      have w: "wordsFrom [] cs = wordsFrom [] d" unfolding d_def by (rule wordsFrom_skip)
      have ld: "length d \<le> length cs" unfolding d_def by (rule length_dropWhile_le)
      show ?thesis
      proof (cases d)
        case Nil
        with True Cons less.prems w d_def show ?thesis
          by (simp add: trimEnd_Cons trimEnd_Nil whiteSpace_32)
      next
        case (Cons e es)
        have e: "\<not> isWhiteSpace e"
          using Cons d_def dropWhile_Cons_hd[of isWhiteSpace cs e es] by simp
        have les: "length es < length rest" using ld Cons \<open>rest = c # cs\<close> by simp
        have "join [32] (wordsFrom [e] es) = [e] @ trimEnd (collapseSpaces es)"
          using less.hyps[OF les, of "[e]"] by simp
        then have j: "join [32] (wordsFrom [] d) = e # trimEnd (collapseSpaces es)"
          using Cons e by simp
        have ne: "wordsFrom [] d \<noteq> []" using Cons e wordsFrom_nonempty[of "[e]" es] by simp
        have "collapseSpaces rest = 32 # collapseSpaces d"
          using True \<open>rest = c # cs\<close> d_def by simp
        also have "collapseSpaces d = e # collapseSpaces es" using Cons e by simp
        finally have cr: "trimEnd (collapseSpaces rest) = 32 # e # trimEnd (collapseSpaces es)"
          using e by (simp add: trimEnd_Cons)
        have "wordsFrom cur rest = rev cur # wordsFrom [] d"
          using True \<open>rest = c # cs\<close> less.prems w by simp
        then show ?thesis using j ne cr by (simp add: join_Cons)
      qed
    qed
  qed
qed

lemma trim_collapse_words: "trim (collapseSpaces s) = join [32] (wordsOf s)"
proof -
  define d where "d = dropWhile isWhiteSpace s"
  have w: "wordsOf s = wordsFrom [] d" unfolding d_def wordsOf_def by (rule wordsFrom_skip)
  have cd: "dropWhile isWhiteSpace (collapseSpaces s) = collapseSpaces d"
  proof (cases s)
    case Nil
    then show ?thesis by (simp add: d_def)
  next
    case (Cons c cs)
    show ?thesis
    proof (cases "isWhiteSpace c")
      case True
      with Cons show ?thesis
        by (simp add: d_def whiteSpace_32 collapseSpaces_dropWhile_start)
    next
      case False
      with Cons show ?thesis by (simp add: d_def)
    qed
  qed
  show ?thesis
  proof (cases d)
    case Nil
    have "trim (collapseSpaces s) = trimEnd (collapseSpaces d)"
      by (simp only: trim_trimEnd cd)
    also have "\<dots> = []" using Nil by (simp add: trimEnd_Nil)
    finally show ?thesis using w Nil by simp
  next
    case (Cons e es)
    have e: "\<not> isWhiteSpace e"
      using Cons d_def dropWhile_Cons_hd[of isWhiteSpace s e es] by simp
    have "join [32] (wordsFrom [e] es) = [e] @ trimEnd (collapseSpaces es)"
      using unwords_wordsFrom[of "[e]" es] by simp
    then have j: "join [32] (wordsOf s) = e # trimEnd (collapseSpaces es)"
      using w Cons e by simp
    have "trim (collapseSpaces s) = trimEnd (collapseSpaces d)"
      by (simp only: trim_trimEnd cd)
    also have "\<dots> = e # trimEnd (collapseSpaces es)"
      using Cons e by (simp add: trimEnd_Cons)
    finally show ?thesis using j by simp
  qed
qed

lemma wordsFrom_ws_prefix: "list_all isWhiteSpace w \<Longrightarrow> wordsFrom [] (w @ y) = wordsFrom [] y"
  by (induction w) simp_all

lemma wordsFrom_append_ws:
  "w \<noteq> [] \<Longrightarrow> list_all isWhiteSpace w \<Longrightarrow>
   wordsFrom cur (x @ w @ y) = wordsFrom cur x @ wordsFrom [] y"
proof (induction x arbitrary: cur)
  case Nil
  then obtain c w0 where w: "w = c # w0" "isWhiteSpace c" "list_all isWhiteSpace w0"
    by (cases w) auto
  then show ?case by (simp add: wordsFrom_ws_prefix)
next
  case (Cons a x)
  then show ?case by (simp add: wordsFrom_ws_prefix)
qed

lemma join_append:
  "join sep (a @ b) = (if a = [] then join sep b else if b = [] then join sep a
                       else join sep a @ sep @ join sep b)"
proof (induction a)
  case Nil
  then show ?case by simp
next
  case (Cons x xs)
  then show ?case by (auto simp: join_Cons)
qed

lemma join_words_Nil:
  "(\<And>w. w \<in> set ws \<Longrightarrow> w \<noteq> []) \<Longrightarrow> join sep ws = [] \<longleftrightarrow> ws = []"
  by (cases ws) (auto simp: join_Cons)

lemma trim_collapse_append_ws:
  assumes "w \<noteq> []" and "list_all isWhiteSpace w"
  shows "trim (collapseSpaces (x @ w @ y))
     = glue (trim (collapseSpaces x)) (trim (collapseSpaces y))"
proof -
  have nx: "join [32] (wordsOf x) = [] \<longleftrightarrow> wordsOf x = []"
    by (rule join_words_Nil) (use wordsFrom_members[of _ "[]" x] in \<open>simp add: wordsOf_def\<close>)
  have ny: "join [32] (wordsOf y) = [] \<longleftrightarrow> wordsOf y = []"
    by (rule join_words_Nil) (use wordsFrom_members[of _ "[]" y] in \<open>simp add: wordsOf_def\<close>)
  have "wordsOf (x @ w @ y) = wordsOf x @ wordsOf y"
    unfolding wordsOf_def using assms by (rule wordsFrom_append_ws)
  then show ?thesis
    unfolding trim_collapse_words glue_def using nx ny by (simp add: join_append)
qed

lemma normalizeText_unpunctuated:
  "normalizeText rt txt = trim (collapseSpaces (unpunctuated rt txt))"
  by (simp add: normalizeText_def unpunctuated_def)

lemma normalizeText_append_ws:
  assumes "whiteSpaceLocal rt" and "w \<noteq> []" and "list_all isWhiteSpace w"
  shows "normalizeText rt (c @ w @ t) = glue (normalizeText rt c) (normalizeText rt t)"
proof -
  from assms obtain w' where w': "w' \<noteq> []" "list_all isWhiteSpace w'"
      and u: "unpunctuated rt (c @ w @ t) = unpunctuated rt c @ w' @ unpunctuated rt t"
    unfolding whiteSpaceLocal_def by blast
  show ?thesis
    unfolding normalizeText_unpunctuated u by (rule trim_collapse_append_ws[OF w'])
qed

lemma filter_length_mono:
  "(\<And>x. x \<in> set xs \<Longrightarrow> P x \<Longrightarrow> Q x) \<Longrightarrow> length (filter P xs) \<le> length (filter Q xs)"
  by (induction xs) auto

lemma positions_mono:
  assumes "\<And>i. i \<le> length c \<Longrightarrow> P i \<Longrightarrow> Q i"
  shows "length (filter P [0 ..< Suc (length c)])
       \<le> length (filter Q [0 ..< Suc (length (c @ ext))])"
proof -
  have "[0 ..< Suc (length (c @ ext))]
      = [0 ..< Suc (length c)] @ [Suc (length c) ..< Suc (length (c @ ext))]"
    by (metis le_add1 length_append upt_add_eq_append Suc_le_mono zero_le le_Suc_eq add_Suc)
  then have "length (filter Q [0 ..< Suc (length c)])
      \<le> length (filter Q [0 ..< Suc (length (c @ ext))])" by simp
  moreover have "length (filter P [0 ..< Suc (length c)]) \<le> length (filter Q [0 ..< Suc (length c)])"
    by (rule filter_length_mono) (use assms in auto)
  ultimately show ?thesis by simp
qed

lemma position_in_extension:
  assumes "i < length c"
  shows "prevAt (c @ ext) i = prevAt c i" and "drop i (c @ ext) = drop i c @ ext"
    and "wordBoundary (prevAt (c @ ext) i) (drop i (c @ ext)) = wordBoundary (prevAt c i) (drop i c)"
proof -
  have "i - 1 < length c" using assms by simp
  then show 1: "prevAt (c @ ext) i = prevAt c i" by (simp add: prevAt_def nth_append)
  show 2: "drop i (c @ ext) = drop i c @ ext" using assms by simp
  obtain x xs where "drop i c = x # xs" using assms by (cases "drop i c") auto
  with 1 2 show "wordBoundary (prevAt (c @ ext) i) (drop i (c @ ext))
      = wordBoundary (prevAt c i) (drop i c)" by (simp add: wordBoundary_def)
qed

lemma prefix_position:
  assumes "prefix word (drop i c)" and "word \<noteq> []"
  shows "i < length c" and "i + length word \<le> length c"
proof -
  from assms obtain zs where z: "drop i c = word @ zs" by (auto simp: prefix_def)
  have "length (drop i c) = length (word @ zs)" using z by (rule arg_cong)
  then have l: "length c - i = length word + length zs" by simp
  moreover have "0 < length word" using assms(2) by simp
  ultimately show "i < length c" by arith
  from l \<open>0 < length word\<close> show "i + length word \<le> length c" by arith
qed

lemma prefixOccurrences_mono:
  assumes "word \<noteq> []"
  shows "prefixOccurrences word c \<le> prefixOccurrences word (c @ ext)"
  unfolding prefixOccurrences_def
proof (rule positions_mono)
  fix i
  assume "wordBoundary (prevAt c i) (drop i c) \<and> prefix word (drop i c)"
  then have b: "wordBoundary (prevAt c i) (drop i c)" and p: "prefix word (drop i c)" by simp_all
  from prefix_position[OF p assms] have i: "i < length c" by simp
  from position_in_extension[OF i, of ext] b p
  show "wordBoundary (prevAt (c @ ext) i) (drop i (c @ ext)) \<and> prefix word (drop i (c @ ext))"
    by (simp add: prefix_def) (metis append.assoc)
qed

lemma boundary_at_end:
  assumes "j \<le> length c" and "0 < j" and "ext = [] \<or> \<not> isWordChar (hd ext)"
    and "wordBoundary (prevAt c j) (drop j c)"
  shows "wordBoundary (prevAt (c @ ext) j) (drop j (c @ ext))"
proof (cases "j < length c")
  case True
  from position_in_extension(3)[OF True, of ext] assms(4) show ?thesis by simp
next
  case False
  with assms(1) have j: "j = length c" by simp
  have pv: "prevAt (c @ ext) j = prevAt c j"
    using assms(2) j by (simp add: prevAt_def nth_append)
  have "(case ext of [] \<Rightarrow> False | x # _ \<Rightarrow> isWordChar x) = False"
    using assms(3) by (cases ext) auto
  with pv j assms(4) show ?thesis by (simp add: wordBoundary_def)
qed

lemma exactOccurrences_mono:
  assumes "word \<noteq> []" and "ext = [] \<or> \<not> isWordChar (hd ext)"
  shows "exactOccurrences word c \<le> exactOccurrences word (c @ ext)"
  unfolding exactOccurrences_def
proof (rule positions_mono)
  fix i
  assume "wordBoundary (prevAt c i) (drop i c) \<and> prefix word (drop i c) \<and>
          wordBoundary (prevAt c (i + length word)) (drop (i + length word) c)"
  then have b: "wordBoundary (prevAt c i) (drop i c)" and p: "prefix word (drop i c)"
    and e: "wordBoundary (prevAt c (i + length word)) (drop (i + length word) c)" by simp_all
  from prefix_position[OF p assms(1)] have i: "i < length c" and j: "i + length word \<le> length c"
    by simp_all
  have j0: "0 < i + length word" using assms(1) by simp
  have 1: "wordBoundary (prevAt (c @ ext) i) (drop i (c @ ext))"
    using position_in_extension(3)[OF i, of ext] b by simp
  have 2: "prefix word (drop i (c @ ext))"
    using position_in_extension(2)[OF i, of ext] p by (simp add: prefix_def) (metis append.assoc)
  have 3: "wordBoundary (prevAt (c @ ext) (i + length word)) (drop (i + length word) (c @ ext))"
    using boundary_at_end[OF j j0 assms(2) e] .
  from 1 2 3
  show "wordBoundary (prevAt (c @ ext) i) (drop i (c @ ext)) \<and> prefix word (drop i (c @ ext)) \<and>
        wordBoundary (prevAt (c @ ext) (i + length word)) (drop (i + length word) (c @ ext))"
    by simp
qed

lemma str_includes_Nil: "str_includes s []"
  by (cases s) auto

lemma str_includes_append: "str_includes c t \<Longrightarrow> str_includes (c @ ext) t"
proof (induction c)
  case Nil
  then show ?case by (simp add: str_includes_Nil)
next
  case (Cons x xs)
  then show ?case by (auto simp: prefix_def) (metis append.assoc append_Cons)
qed

lemma occurrences_Nil:
  "word \<noteq> [] \<Longrightarrow> exactOccurrences word [] = 0 \<and> prefixOccurrences word [] = 0"
  by (simp add: exactOccurrences_def prefixOccurrences_def)

lemma termScore_spec_append:
  assumes "ext = [] \<or> \<not> isWordChar (hd ext)"
  shows "termScore_spec c t \<le> termScore_spec (c @ ext) t"
proof -
  have 1: "(if str_includes c t then 10 * of_nat (length (wordsOf t)) else (0::rat))
      \<le> (if str_includes (c @ ext) t then 10 * of_nat (length (wordsOf t)) else 0)"
    using str_includes_append[of c t ext] by auto
  have 2: "sum_list (map (\<lambda>word. 2 * of_nat (exactOccurrences word c)
                             + (1 / 2) * of_nat (prefixOccurrences word c))
         (filter (\<lambda>word. 2 \<le> length word) (wordsOf t)))
     \<le> sum_list (map (\<lambda>word. 2 * of_nat (exactOccurrences word (c @ ext))
                             + (1 / 2) * (of_nat (prefixOccurrences word (c @ ext)) :: rat))
         (filter (\<lambda>word. 2 \<le> length word) (wordsOf t)))"
  proof (rule sum_list_mono)
    fix w assume "w \<in> set (filter (\<lambda>word. 2 \<le> length word) (wordsOf t))"
    then have w: "w \<noteq> []" by auto
    from exactOccurrences_mono[OF w assms, of c] prefixOccurrences_mono[OF w, of c ext]
    show "2 * of_nat (exactOccurrences w c) + (1 / 2) * of_nat (prefixOccurrences w c)
        \<le> 2 * of_nat (exactOccurrences w (c @ ext))
          + (1 / 2) * (of_nat (prefixOccurrences w (c @ ext)) :: rat)"
      by (simp add: add_mono)
  qed
  from 1 2 show ?thesis unfolding termScore_spec_def by (rule add_mono)
qed

lemma termScore_spec_empty_chunk: "t \<noteq> [] \<Longrightarrow> termScore_spec [] t = 0"
proof -
  assume t: "t \<noteq> []"
  have "sum_list (map (\<lambda>word. 2 * of_nat (exactOccurrences word [])
                             + (1 / 2) * (of_nat (prefixOccurrences word []) :: rat))
         (filter (\<lambda>word. 2 \<le> length word) (wordsOf t))) = 0"
  proof -
    have "map (\<lambda>word. 2 * of_nat (exactOccurrences word [])
                             + (1 / 2) * (of_nat (prefixOccurrences word []) :: rat))
         (filter (\<lambda>word. 2 \<le> length word) (wordsOf t))
       = map (\<lambda>word. 0) (filter (\<lambda>word. 2 \<le> length word) (wordsOf t))"
    proof (rule map_cong)
      fix w assume "w \<in> set (filter (\<lambda>word. 2 \<le> length word) (wordsOf t))"
      then have "w \<noteq> []" by auto
      from occurrences_Nil[OF this]
      show "2 * of_nat (exactOccurrences w []) + (1 / 2) * (of_nat (prefixOccurrences w []) :: rat) = 0"
        by simp
    qed simp
    then have "sum_list (map (\<lambda>word. 2 * of_nat (exactOccurrences word [])
                             + (1 / 2) * (of_nat (prefixOccurrences word []) :: rat))
         (filter (\<lambda>word. 2 \<le> length word) (wordsOf t)))
       = sum_list (map (\<lambda>word. 0) (filter (\<lambda>word. 2 \<le> length word) (wordsOf t)))"
      by (rule arg_cong)
    also have "\<dots> = 0" by simp
    finally show ?thesis .
  qed
  with t show ?thesis by (simp add: termScore_spec_def)
qed

lemma termScore_spec_glue: "termScore_spec c t \<le> termScore_spec (glue c t) t"
proof (cases "t = []")
  case True
  then show ?thesis by (simp add: glue_def)
next
  case False
  show ?thesis
  proof (cases "c = []")
    case True
    with False show ?thesis
      by (simp add: glue_def termScore_spec_empty_chunk termScore_spec_nonneg)
  next
    case cne: False
    have "termScore_spec c t \<le> termScore_spec (c @ ([32] @ t)) t"
      by (rule termScore_spec_append) (simp add: isWordChar_def)
    with False cne show ?thesis by (simp add: glue_def)
  qed
qed


lemma test_from_here: "m prev xs \<noteq> None \<Longrightarrow> test_from m prev xs"
  by (cases xs) auto

lemma test_from_append:
  assumes ext: "\<And>prev rest. m prev rest \<noteq> None \<Longrightarrow> m prev (rest @ ext) \<noteq> None"
  shows "test_from m prev xs \<Longrightarrow> test_from m prev (xs @ ext)"
proof (induction xs arbitrary: prev)
  case Nil
  then have "m prev [] \<noteq> None" by simp
  from ext[OF this] show ?case by (simp add: test_from_here)
next
  case (Cons x xs)
  show ?case
  proof (cases "m prev (x # xs) = None")
    case True
    with Cons show ?thesis by simp
  next
    case False
    from ext[OF this] show ?thesis by simp
  qed
qed

lemma takeWhile_stops:
  assumes "drop (length (takeWhile P xs)) xs \<noteq> []"
  shows "takeWhile P (xs @ ys) = takeWhile P xs"
proof -
  have "takeWhile P xs \<noteq> xs"
  proof
    assume "takeWhile P xs = xs"
    then have "drop (length (takeWhile P xs)) xs = drop (length xs) xs"
      by (simp only:)
    with assms show False by (simp only: drop_all order_refl not_False_eq_True simp_thms)
  qed
  then obtain x where "x \<in> set xs" "\<not> P x" by (metis takeWhile_eq_all_conv)
  then show ?thesis by (rule takeWhile_append1)
qed

lemma length_takeWhile_append: "length (takeWhile P xs) \<le> length (takeWhile P (xs @ ys))"
  by (induction xs) auto

lemma hasHeader_extend: "hasHeader prev rest \<noteq> None \<Longrightarrow> hasHeader prev (rest @ ext) \<noteq> None"
proof -
  assume a: "hasHeader prev rest \<noteq> None"
  define h where "h = length (takeWhile (\<lambda>c. c = 35) rest)"
  define w where "w = length (takeWhile isWhiteSpace (drop h rest))"
  from a have c: "atLineStart prev" "1 \<le> h" "h \<le> 6" "1 \<le> w"
    by (simp_all add: hasHeader_def Let_def h_def w_def split: if_splits)
  from c(4) have ne: "drop h rest \<noteq> []" by (auto simp: w_def)
  then have t: "takeWhile (\<lambda>c. c = 35) (rest @ ext) = takeWhile (\<lambda>c. c = 35) rest"
    unfolding h_def by (rule takeWhile_stops)
  from ne have d: "drop h (rest @ ext) = drop h rest @ ext" by simp
  have "w \<le> length (takeWhile isWhiteSpace (drop h rest @ ext))"
    unfolding w_def by (rule length_takeWhile_append)
  with c t d show ?thesis
    by (simp add: hasHeader_def Let_def h_def[symmetric])
qed

lemma index_of_append: "index_of t xs \<noteq> None \<Longrightarrow> index_of t (xs @ ys) \<noteq> None"
proof (induction xs)
  case Nil
  then show ?case by (cases ys) (auto split: if_splits)
next
  case (Cons x xs)
  show ?case
  proof (cases "prefix t (x # xs)")
    case True
    then have "prefix t (x # xs @ ys)" by (auto simp: prefix_def) (metis append.assoc append_Cons)
    then show ?thesis by simp
  next
    case False
    with Cons show ?thesis by auto
  qed
qed

lemma indentedCode_extend:
  "indentedCode prev rest \<noteq> None \<Longrightarrow> indentedCode prev (rest @ ext) \<noteq> None"
proof -
  assume a: "indentedCode prev rest \<noteq> None"
  define k where "k = length (takeWhile (\<lambda>c. c = 32) rest)"
  from a have c: "atLineStart prev" "4 \<le> k"
    and d: "(case drop k rest of [] \<Rightarrow> False | c # _ \<Rightarrow> \<not> isWhiteSpace c)"
    by (simp_all add: indentedCode_def Let_def k_def split: if_splits)
  from d have ne: "drop k rest \<noteq> []" by (auto split: list.splits)
  then have t: "takeWhile (\<lambda>c. c = 32) (rest @ ext) = takeWhile (\<lambda>c. c = 32) rest"
    unfolding k_def by (rule takeWhile_stops)
  from ne have dr: "drop k (rest @ ext) = drop k rest @ ext" by simp
  from d ne have "(case drop k rest @ ext of [] \<Rightarrow> False | c # _ \<Rightarrow> \<not> isWhiteSpace c)"
    by (cases "drop k rest") auto
  with c t dr show ?thesis
    by (simp add: indentedCode_def Let_def k_def[symmetric])
qed

lemma indentedCode_not_fence: "prefix fence rest \<Longrightarrow> indentedCode prev rest = None"
  by (cases rest) (auto simp: indentedCode_def fence_def Let_def)

lemma codeBlock_extend: "codeBlock prev rest \<noteq> None \<Longrightarrow> codeBlock prev (rest @ ext) \<noteq> None"
proof (cases "prefix fence rest")
  case True
  assume a: "codeBlock prev rest \<noteq> None"
  with True indentedCode_not_fence[OF True, of prev]
  have i: "index_of fence (drop 3 rest) \<noteq> None"
    by (auto simp: codeBlock_def split: option.splits)
  from True have l: "3 \<le> length rest" by (auto simp: prefix_def fence_def)
  then have d: "drop 3 (rest @ ext) = drop 3 rest @ ext" by simp
  from True have p: "prefix fence (rest @ ext)" by (auto simp: prefix_def)
  from index_of_append[OF i, of ext] d p show ?thesis
    by (auto simp: codeBlock_def split: option.splits)
next
  case False
  assume a: "codeBlock prev rest \<noteq> None"
  with False have "indentedCode prev rest \<noteq> None" by (simp add: codeBlock_def)
  then have "indentedCode prev (rest @ ext) \<noteq> None" by (rule indentedCode_extend)
  then show ?thesis by (auto simp: codeBlock_def split: option.splits)
qed

lemma bonus_append:
  "regex_test codeBlock c \<Longrightarrow> regex_test codeBlock (c @ ext)"
  "regex_test hasHeader c \<Longrightarrow> regex_test hasHeader (c @ ext)"
  unfolding regex_test_def
  using test_from_append[of codeBlock ext None c] codeBlock_extend
    test_from_append[of hasHeader ext None c] hasHeader_extend
  by blast+

lemma applyBonuses_mono:
  assumes "0 \<le> x" and "x \<le> y"
  shows "applyBonuses c x \<le> applyBonuses (c @ ext) y"
proof -
  define b1 :: "jstring \<Rightarrow> rat" where "b1 = (\<lambda>s. if regex_test codeBlock s then 6 / 5 else 1)"
  define b2 :: "jstring \<Rightarrow> rat" where "b2 = (\<lambda>s. if regex_test hasHeader s then 13 / 10 else 1)"
  have ab: "\<And>s z. applyBonuses s z = z * b1 s * b2 s"
    by (simp add: applyBonuses_def b1_def b2_def Let_def codeBonus_def headerBonus_def)
  have 1: "0 \<le> b1 c" "b1 c \<le> b1 (c @ ext)" using bonus_append(1)[of c ext] by (auto simp: b1_def)
  have 2: "0 \<le> b2 c" "b2 c \<le> b2 (c @ ext)" using bonus_append(2)[of c ext] by (auto simp: b2_def)
  have y: "0 \<le> y" using assms by simp
  have 3: "x * b1 c \<le> y * b1 (c @ ext)"
    by (rule mult_mono[OF assms(2) 1(2) y 1(1)])
  have "0 \<le> b1 (c @ ext)" using 1 by simp
  with y have 4: "0 \<le> y * b1 (c @ ext)" by (rule mult_nonneg_nonneg)
  have "x * b1 c * b2 c \<le> y * b1 (c @ ext) * b2 (c @ ext)"
    by (rule mult_mono[OF 3 2(2) 4 2(1)])
  then show ?thesis by (simp add: ab)
qed

lemma score_single:
  assumes "conforming rt"
  shows "calculateRelevanceScore rt c [t]
     = applyBonuses c (termScore_spec (normalizeText rt c) (normalizeText rt t))"
  using score_sum_unfolded[OF assms, of c "[t]"]
  by (simp add: calculateRelevanceScore_def Let_def)

lemma whiteSpace_kept:
  assumes "list_all isWhiteSpace w"
  shows "removePunctuation (removeAccents (map lowerAscii w)) = w"
proof -
  have 1: "map lowerAscii w = w"
    using assms by (induction w) (auto simp: lowerAscii_def isWhiteSpace_def isLineTerminator_def)
  have 2: "removeAccents w = w"
    using assms
    by (induction w) (auto simp: removeAccents_def isWhiteSpace_def isLineTerminator_def)
  have 3: "removePunctuation w = w"
    using assms by (induction w) (auto simp: removePunctuation_def)
  show ?thesis by (simp add: 1 2 3)
qed

lemma whiteSpaceLocal_asciiRuntime: "whiteSpaceLocal asciiRuntime"
proof -
  have "unpunctuated asciiRuntime (a @ w @ b)
      = unpunctuated asciiRuntime a @ w @ unpunctuated asciiRuntime b"
    if "list_all isWhiteSpace w" for a w b
    using whiteSpace_kept[OF that]
    by (simp add: unpunctuated_def asciiRuntime_def removePunctuation_def removeAccents_def)
  then show ?thesis unfolding whiteSpaceLocal_def by blast
qed

text \<open>
  C5, as amended.  For every chunk \<open>C\<close>, every term \<open>T\<close> and every non-empty run \<open>w\<close> of
  white space, appending \<open>w\<close> and then \<open>T\<close> to \<open>C\<close> does not decrease
  \<open>calculateRelevanceScore(C, [T])\<close>.
\<close>

theorem score_monotone_append:
  assumes "conforming rt" and "whiteSpaceLocal rt" and "w \<noteq> []" and "list_all isWhiteSpace w"
  shows "calculateRelevanceScore rt c [t] \<le> calculateRelevanceScore rt (c @ w @ t) [t]"
proof -
  have "termScore_spec (normalizeText rt c) (normalizeText rt t)
      \<le> termScore_spec (normalizeText rt (c @ w @ t)) (normalizeText rt t)"
    unfolding normalizeText_append_ws[OF assms(2,3,4)] by (rule termScore_spec_glue)
  then have "applyBonuses c (termScore_spec (normalizeText rt c) (normalizeText rt t))
      \<le> applyBonuses (c @ (w @ t))
           (termScore_spec (normalizeText rt (c @ w @ t)) (normalizeText rt t))"
    by (rule applyBonuses_mono[OF termScore_spec_nonneg])
  then show ?thesis by (simp add: score_single[OF assms(1)])
qed

lemma ws_run: "[10, 9] \<noteq> ([] :: nat list) \<and> list_all isWhiteSpace [10, 9]"
  by code_simp

theorem score_monotone_append_witness:
  "conforming asciiRuntime \<and> whiteSpaceLocal asciiRuntime
   \<and> list_all isWhiteSpace [10, 9]
   \<and> calculateRelevanceScore asciiRuntime (str ''foo'') [str ''foo'']
       \<le> calculateRelevanceScore asciiRuntime (str ''foo'' @ [10, 9] @ str ''foo'') [str ''foo'']"
  using score_monotone_append [OF conforming_asciiRuntime whiteSpaceLocal_asciiRuntime,
      of "[10, 9]" "str ''foo''" "str ''foo''"]
    conforming_asciiRuntime whiteSpaceLocal_asciiRuntime ws_run
  by simp

text \<open>
  The claim as stated, for any way of adding an occurrence, fails in two ways.  Added
  directly after the chunk \<open>foo\<close>, the term \<open>foo\<close> turns the word \<open>foo\<close> into \<open>foofoo\<close>: the
  exact occurrence is lost and the score falls from 12.5 to 10.5.  Added in front of the
  chunk \<open># a\<close>, even with a space, the term \<open>a\<close> moves the \<open>#\<close> away from the start of its
  line: the bonus for a header is lost and the score falls from 13 to 10.
\<close>

theorem score_monotone_counterexample:
  "calculateRelevanceScore asciiRuntime (str ''foo'' @ str ''foo'') [str ''foo'']
     < calculateRelevanceScore asciiRuntime (str ''foo'') [str ''foo'']
   \<and> calculateRelevanceScore asciiRuntime (str ''foo'' @ str ''foo'') [str ''foo''] = 21 / 2
   \<and> calculateRelevanceScore asciiRuntime (str ''foo'') [str ''foo''] = 25 / 2
   \<and> calculateRelevanceScore asciiRuntime (str ''a'' @ [32] @ str ''# a'') [str ''a'']
     < calculateRelevanceScore asciiRuntime (str ''# a'') [str ''a'']
   \<and> calculateRelevanceScore asciiRuntime (str ''a'' @ [32] @ str ''# a'') [str ''a''] = 10
   \<and> calculateRelevanceScore asciiRuntime (str ''# a'') [str ''a''] = 13"
  by code_simp


section \<open>The chunker on Markdown and plain text\<close>

subsection \<open>Splitting where the pattern does not match\<close>

lemma split_unmatched_end: "unmatched m prev a [] \<Longrightarrow> split_loop m prev cur a = [rev cur @ a]"
proof (induction a arbitrary: prev cur)
  case Nil
  then show ?case by (simp add: split_loop_Nil)
next
  case (Cons c cs)
  then have "m prev (c # cs) = None" and "unmatched m (Some c) cs []" by simp_all
  with Cons.IH[of "Some c" "c # cur"] show ?case by (simp add: split_loop_Cons)
qed

lemma split_unmatched_then:
  assumes "unmatched m prev a b" and "b \<noteq> []" and "m (lastOr prev a) b = Some n"
    and "\<not> (n = 0 \<and> cur = [] \<and> a = [])"
  shows "split_loop m prev cur (a @ b)
     = (rev cur @ a) #
       split_loop m (if n = 0 then lastOr prev a else Some (last (take n b))) [] (drop n b)"
  using assms
proof (induction a arbitrary: prev cur)
  case Nil
  obtain c cs where b: "b = c # cs" using Nil.prems(2) by (cases b) auto
  from Nil.prems(3) have m: "m prev (c # cs) = Some n" by (simp add: lastOr_def b)
  from Nil.prems(4) have "\<not> (n = 0 \<and> cur = [])" by simp
  with m b show ?case by (simp add: split_loop_Cons lastOr_def)
next
  case (Cons x xs)
  from Cons.prems(1) have none: "m prev (x # xs @ b) = None" and u: "unmatched m (Some x) xs b"
    by simp_all
  have l: "lastOr (Some x) xs = lastOr prev (x # xs)" by (simp add: lastOr_def)
  have "split_loop m (Some x) (x # cur) (xs @ b)
     = (rev (x # cur) @ xs) #
       split_loop m (if n = 0 then lastOr (Some x) xs else Some (last (take n b))) [] (drop n b)"
    using Cons.IH[OF u Cons.prems(2), of "x # cur"] Cons.prems(3) l by simp
  with none l show ?case by (simp add: split_loop_Cons)
qed

lemma unmatched_sentences: "\<forall>c \<in> set a. \<not> isWhiteSpace c \<Longrightarrow> unmatched sentences prev a b"
  by (induction a arbitrary: prev) (auto simp: sentences_def Let_def split: option.splits)

lemma unmatched_paragraphs: "\<forall>c \<in> set a. c \<noteq> 10 \<Longrightarrow> unmatched paragraphs prev a b"
  by (induction a arbitrary: prev) (auto simp: paragraphs_def Let_def)

lemma unmatched_headers: "\<forall>c \<in> set a. c \<noteq> 35 \<Longrightarrow> unmatched headers prev a b"
  by (induction a arbitrary: prev) (auto simp: headers_def headerLineAhead_def Let_def)

lemma unmatched_horizontalRules:
  "\<forall>c \<in> set a. c \<noteq> 45 \<and> c \<noteq> 42 \<and> c \<noteq> 61 \<Longrightarrow> unmatched horizontalRules prev a b"
  by (induction a arbitrary: prev)
     (auto simp: horizontalRules_def ruleLine_def Let_def split: option.splits)

lemma js_split_unmatched: "s \<noteq> [] \<Longrightarrow> unmatched m None s [] \<Longrightarrow> js_split m s = [s]"
  by (simp add: js_split_def split_unmatched_end)


subsection \<open>Documents that take the Markdown path\<close>

lemma matchesWord_lt: "matchesWord (60 # w) r \<Longrightarrow> r \<noteq> [] \<and> hd r = 60"
  by (cases r) (auto simp: matchesWord_def canonicalize_def split: if_splits)

lemma str_Cons: "str (c # cs) = of_char c # str cs"
  by (simp add: str_def)

lemma isHtml_None: "60 \<notin> set s \<Longrightarrow> isHtml prev s = None"
proof -
  assume s: "60 \<notin> set s"
  let ?r = "drop (length (takeWhile isWhiteSpace s)) s"
  have r: "?r = [] \<or> hd ?r \<noteq> 60"
    using s by (metis hd_in_set in_set_dropD)
  have "\<not> matchesWord (60 # w) ?r" for w using matchesWord_lt[of w ?r] r by blast
  then show ?thesis by (simp add: isHtml_def Let_def str_Cons)
qed

lemma test_from_never: "(\<And>p r. m p r = None) \<Longrightarrow> \<not> test_from m prev s"
  by (induction s arbitrary: prev) simp_all

lemma no_html_root: "60 \<notin> set s \<Longrightarrow> \<not> regex_test isHtml s"
proof -
  assume s: "60 \<notin> set s"
  have "\<not> test_from isHtml prev t" if "set t \<subseteq> set s" for prev t
    using that
  proof (induction t arbitrary: prev)
    case Nil
    then show ?case by (simp add: isHtml_None)
  next
    case (Cons c cs)
    then have "60 \<notin> set (c # cs)" using s by auto
    then have "isHtml prev (c # cs) = None" by (rule isHtml_None)
    with Cons show ?case by simp
  qed
  then show ?thesis by (simp add: regex_test_def)
qed

lemma markdown_path:
  assumes j: "\<not> startsWithJsonChar (trim d)" and h: "\<not> regex_test isHtml (trim d)"
  shows "splitIntoChunks st d defaultOptions = splitMarkdownDocument d"
proof -
  have cj: "confidence (checkJson (jsonParses st) (trim d)) \<le> 6 / 10"
    using j by (simp add: checkJson_def Let_def)
  have ch: "confidence (checkHtml (trim d)) \<le> 5 / 10"
    using h by (simp add: checkHtml_def Let_def)
  have fm: "format (checkMarkdown (trim d)) = Markdown" by (simp add: checkMarkdown_def Let_def)
  have "format (detectDocumentFormat (jsonParses st) d) = Markdown \<or>
        format (detectDocumentFormat (jsonParses st) d) = Text"
    using cj ch fm by (simp add: detectDocumentFormat_def Let_def)
  then have "detectFormat (jsonParses st) d True True = Markdown \<or>
             detectFormat (jsonParses st) d True True = Text"
    by (auto simp: detectFormat_def Let_def)
  then show ?thesis
    by (auto simp: splitIntoChunks_def defaultOptions_def Let_def)
qed


subsection \<open>A paragraph of three sentences\<close>

lemma str_c: "str ''c.'' = [99, 46]"
  by code_simp

lemma sentence_lengths: "length sentenceA = 1000" "length sentenceB = 1000"
  by (simp_all add: sentenceA_def sentenceB_def)

lemma sentence_sets: "set sentenceA = {97, 46}" "set sentenceB = {98, 46}"
  by (auto simp: sentenceA_def sentenceB_def)

lemma sentence_ends:
  "sentenceA \<noteq> []" "hd sentenceA = 97" "last sentenceA = 46"
  "sentenceB \<noteq> []" "hd sentenceB = 98" "last sentenceB = 46"
  by (simp_all add: sentenceA_def sentenceB_def hd_append)

lemma not_ws: "\<not> isWhiteSpace 97" "\<not> isWhiteSpace 98" "\<not> isWhiteSpace 99" "\<not> isWhiteSpace 46"
  by (simp_all add: isWhiteSpace_def isLineTerminator_def)

lemma sentences_at_space:
  assumes "p = 46" and "r \<noteq> []" and "\<not> isWhiteSpace (hd r)"
  shows "sentences (Some p) (32 # r) = Some 1"
proof -
  from assms obtain x xs where "r = x # xs" "\<not> isWhiteSpace x" by (cases r) auto
  then show ?thesis using assms(1) by (simp add: sentences_def whiteSpace_32)
qed

lemma split_two_sentences:
  assumes a: "a \<noteq> []" "last a = 46" "\<forall>c \<in> set a. \<not> isWhiteSpace c"
      and b: "b \<noteq> []" "\<not> isWhiteSpace (hd b)"
  shows "split_loop sentences prev [] (a @ 32 # b) = a # split_loop sentences (Some 32) [] b"
proof -
  have u: "unmatched sentences prev a (32 # b)" using a(3) by (rule unmatched_sentences)
  have l: "lastOr prev a = Some 46" using a by (simp add: lastOr_def)
  have m: "sentences (lastOr prev a) (32 # b) = Some 1"
    using l sentences_at_space[of 46 b] b by simp
  show ?thesis
    using split_unmatched_then[OF u _ m, of "[]"] by simp
qed

lemma split_threeSentences:
  "js_split sentences threeSentences = [sentenceA, sentenceB, str ''c.'']"
proof -
  have a: "\<forall>c \<in> set sentenceA. \<not> isWhiteSpace c" "\<forall>c \<in> set sentenceB. \<not> isWhiteSpace c"
    by (simp_all add: sentence_sets not_ws)
  have 1: "split_loop sentences None [] (sentenceA @ 32 # sentenceB @ 32 # [99, 46])
         = sentenceA # split_loop sentences (Some 32) [] (sentenceB @ 32 # [99, 46])"
    by (rule split_two_sentences) (simp_all add: sentence_ends a hd_append not_ws)
  have 2: "split_loop sentences (Some 32) [] (sentenceB @ 32 # [99, 46])
         = sentenceB # split_loop sentences (Some 32) [] [99, 46]"
    by (rule split_two_sentences) (simp_all add: sentence_ends a not_ws)
  have 3: "split_loop sentences (Some 32) [] [99, 46] = [[99, 46]]"
    by (rule split_unmatched_end[of _ _ _ "[]", simplified])
       (simp add: sentences_def not_ws)
  have "threeSentences \<noteq> []" by (simp add: threeSentences_def sentence_ends)
  then show ?thesis
    by (simp add: js_split_def threeSentences_def str_c 1 2 3)
qed

lemma split_joined: "js_split sentences (sentenceA @ [32] @ sentenceB) = [sentenceA, sentenceB]"
proof -
  have a: "\<forall>c \<in> set sentenceA. \<not> isWhiteSpace c" "\<forall>c \<in> set sentenceB. \<not> isWhiteSpace c"
    by (simp_all add: sentence_sets not_ws)
  have 1: "split_loop sentences None [] (sentenceA @ 32 # sentenceB)
         = sentenceA # split_loop sentences (Some 32) [] sentenceB"
    by (rule split_two_sentences) (simp_all add: sentence_ends a not_ws)
  have 2: "split_loop sentences (Some 32) [] sentenceB = [sentenceB]"
    using split_unmatched_end[OF unmatched_sentences[OF a(2), of "Some 32" "[]"], of "[]"] by simp
  show ?thesis by (simp add: js_split_def sentence_ends 1 2)
qed

lemma trim_joined: "trim (sentenceA @ [32] @ sentenceB) = sentenceA @ [32] @ sentenceB"
  by (rule trim_fixed) (simp add: sentence_ends hd_append not_ws)

lemma splitBySentences_three:
  "splitBySentences threeSentences = [sentenceA @ [32] @ sentenceB, str ''c.'']"
proof -
  have "trim [99, 46] = [99, 46]" by (rule trim_fixed) (simp add: not_ws)
  then show ?thesis
    using trim_joined
    by (simp add: splitBySentences_def split_threeSentences str_c sentence_lengths sentence_ends
        MAX_CHUNK_SIZE_def)
qed

lemma set_three: "set threeSentences = {97, 98, 99, 46, 32}"
  by (auto simp: threeSentences_def sentence_sets str_c)

lemma three_nonempty: "threeSentences \<noteq> []"
  by (simp add: threeSentences_def sentence_ends)

lemma trim_three: "trim threeSentences = threeSentences"
  by (rule trim_fixed) (simp add: threeSentences_def sentence_ends hd_append not_ws str_c)

lemma three_whole:
  "js_split headers threeSentences = [threeSentences]"
  "js_split horizontalRules threeSentences = [threeSentences]"
  "js_split paragraphs threeSentences = [threeSentences]"
  by (rule js_split_unmatched[OF three_nonempty], rule unmatched_headers unmatched_horizontalRules
      unmatched_paragraphs, simp add: set_three)+

lemma splitMarkdown_three:
  "splitMarkdownDocument threeSentences = [sentenceA @ [32] @ sentenceB]"
proof -
  have nb: "nonBlank threeSentences" by (simp add: nonBlank_def trim_three three_nonempty)
  have p: "primaryChunks threeSentences = [threeSentences]"
    by (simp add: primaryChunks_def three_whole nb)
  have l: "length threeSentences = 2004"
    by (simp add: threeSentences_def sentence_lengths str_c)
  have r: "refineChunks [threeSentences] = [sentenceA @ [32] @ sentenceB, str ''c.'']"
    by (simp add: l MAX_CHUNK_SIZE_def three_whole nb splitBySentences_three)
  have t: "trim [99, 46] = [99, 46]" by (rule trim_fixed) (simp add: not_ws)
  have "splitMarkdownDocument threeSentences
      = filter (\<lambda>chunk. MIN_CHUNK_SIZE < length (trim chunk))
          [sentenceA @ [32] @ sentenceB, str ''c.'']"
    by (simp only: splitMarkdownDocument_def p r Let_def)
  then show ?thesis
    using trim_joined t by (simp add: MIN_CHUNK_SIZE_def str_c sentence_lengths)
qed

lemma startsWithJsonChar_hd:
  "s \<noteq> [] \<Longrightarrow> \<not> isWhiteSpace (hd s) \<Longrightarrow> startsWithJsonChar s = (hd s = 91 \<or> hd s = 123)"
  by (cases s) (simp_all add: startsWithJsonChar_def)

lemma three_path: "splitIntoChunks st threeSentences defaultOptions = splitMarkdownDocument threeSentences"
proof (rule markdown_path)
  have "hd threeSentences = 97" by (simp add: threeSentences_def sentence_ends hd_append)
  then show "\<not> startsWithJsonChar (trim threeSentences)"
    by (simp add: trim_three startsWithJsonChar_hd three_nonempty not_ws)
  show "\<not> regex_test isHtml (trim threeSentences)"
    by (rule no_html_root) (simp add: trim_three set_three)
qed

text \<open>
  C1.  The size bound of the chunker: every chunk that \<open>splitIntoChunks\<close> returns has at most
  \<open>MAX_CHUNK_SIZE = 2000\<close> units unless it is a single sentence that cannot be divided.
  The code does not keep this bound.  \<open>splitBySentences\<close> tests
  \<open>(currentChunk + sentence).length > MAX_CHUNK_SIZE\<close> and then appends the sentence
  after a space that the test did not count.  On \<open>threeSentences\<close> (two sentences of 1000
  units and the sentence \<open>c.\<close>, 2004 units in all, default options, whatever the HTML and
  JSON strategies are) the only chunk returned has 2001 units, and it is not a single
  sentence: the sentence pattern divides it into the two sentences of 1000 units.
\<close>

theorem oversized_chunk:
  "splitIntoChunks st threeSentences defaultOptions = [sentenceA @ [32] @ sentenceB] \<and>
   length (sentenceA @ [32] @ sentenceB) = 2001 \<and>
   MAX_CHUNK_SIZE = 2000 \<and>
   js_split sentences (sentenceA @ [32] @ sentenceB) = [sentenceA, sentenceB] \<and>
   length sentenceA = 1000 \<and> length sentenceB = 1000"
  by (simp only: three_path splitMarkdown_three split_joined sentence_lengths MAX_CHUNK_SIZE_def
      length_append list.size) simp

subsection \<open>What the chunks keep of the document\<close>

lemma splitIntoChunks_markdown:
  "formatChosen st d options \<noteq> Html \<Longrightarrow> formatChosen st d options \<noteq> Json \<Longrightarrow>
   splitIntoChunks st d options = splitMarkdownDocument d"
  by (cases "formatChosen st d options") (simp_all add: splitIntoChunks_def formatChosen_def)

lemma stripWs_append: "stripWs (a @ b) = stripWs a @ stripWs b"
  by (simp add: stripWs_def)

lemma stripWs_Nil: "stripWs [] = []"
  by (simp add: stripWs_def)

lemma stripWs_rev: "stripWs (rev a) = rev (stripWs a)"
  by (simp add: stripWs_def rev_filter)

lemma stripWs_takeWhile: "stripWs (takeWhile isWhiteSpace s) = []"
  by (induction s) (simp_all add: stripWs_def)

lemma stripWs_dropWhile: "stripWs (dropWhile isWhiteSpace s) = stripWs s"
  by (induction s) (simp_all add: stripWs_def)

lemma stripWs_trim: "stripWs (trim s) = stripWs s"
  by (simp add: trim_def stripWs_rev stripWs_dropWhile)

lemma stripWs_blank: "\<not> nonBlank s \<Longrightarrow> stripWs s = []"
proof -
  assume "\<not> nonBlank s"
  then have "trim s = []" by (simp add: nonBlank_def)
  then have "stripWs (trim s) = []" by (simp add: stripWs_def)
  then show ?thesis by (simp add: stripWs_trim)
qed

lemma stripWs_concat_nonBlank: "stripWs (concat (filter nonBlank xs)) = stripWs (concat xs)"
  by (induction xs) (simp_all add: stripWs_append stripWs_blank)

lemma stripWs_Cons_concat: "stripWs (concat (x # xs)) = stripWs x @ stripWs (concat xs)"
  by (simp add: stripWs_append)

lemma split_loop_cover:
  assumes m: "\<And>p r n. m p r = Some n \<Longrightarrow> stripWs (take n r) = []"
  shows "stripWs (concat (split_loop m prev cur rest)) = stripWs (rev cur @ rest)"
proof (induction "2 * length rest + (if cur = [] then 0 else 1)" arbitrary: prev cur rest
    rule: less_induct)
  case less
  show ?case
  proof (cases rest)
    case Nil
    then show ?thesis by (simp add: split_loop_Nil)
  next
    case (Cons c cs)
    have step: "stripWs (concat (split_loop m (Some c) (c # cur) cs)) = stripWs (rev cur @ rest)"
      using less[of cs "c # cur" "Some c"] Cons by simp
    show ?thesis
    proof (cases "m prev rest")
      case None
      with Cons step show ?thesis by (simp add: split_loop_Cons)
    next
      case (Some n)
      show ?thesis
      proof (cases "n = 0 \<and> cur = []")
        case True
        with Cons Some step show ?thesis by (simp add: split_loop_Cons)
      next
        case False
        let ?p = "if n = 0 then prev else Some (last (take n rest))"
        have "2 * length (drop n rest) + 0 < 2 * length rest + (if cur = [] then 0 else 1)"
          using False Cons by (cases "n = 0") auto
        then have ih: "stripWs (concat (split_loop m ?p [] (drop n rest))) = stripWs (drop n rest)"
          using less[of "drop n rest" "[]" ?p] by simp
        have "split_loop m prev cur rest = rev cur # split_loop m ?p [] (drop n rest)"
          using Cons Some False by (simp add: split_loop_Cons)
        then have "stripWs (concat (split_loop m prev cur rest))
                 = stripWs (rev cur) @ stripWs (drop n rest)"
          using ih by (simp add: stripWs_append)
        also have "\<dots> = stripWs (rev cur) @ stripWs (take n rest) @ stripWs (drop n rest)"
          using m[OF Some] by simp
        also have "\<dots> = stripWs (rev cur @ rest)"
          by (simp add: stripWs_append[symmetric])
        finally show ?thesis .
      qed
    qed
  qed
qed

lemma js_split_cover:
  assumes "\<And>p r n. m p r = Some n \<Longrightarrow> stripWs (take n r) = []"
  shows "stripWs (concat (js_split m s)) = stripWs s"
  using split_loop_cover[of m None "[]" s, OF assms]
  by (simp add: js_split_def stripWs_Nil)


lemma take_takeWhile: "take (length (takeWhile P r)) r = takeWhile P r"
  by (induction r) simp_all

lemma stripWs_all: "\<forall>c \<in> set s. isWhiteSpace c \<Longrightarrow> stripWs s = []"
  by (simp add: stripWs_def)

lemma whiteSpace_10: "isWhiteSpace 10"
  by (simp add: isWhiteSpace_def isLineTerminator_def)

lemma headers_blank: "headers p r = Some n \<Longrightarrow> stripWs (take n r) = []"
  by (auto simp: headers_def stripWs_def split: if_splits)

lemma paragraphs_blank: "paragraphs p r = Some n \<Longrightarrow> stripWs (take n r) = []"
proof -
  assume "paragraphs p r = Some n"
  then have "take n r = takeWhile (\<lambda>c. c = 10) r"
    by (auto simp: paragraphs_def Let_def take_takeWhile split: if_splits)
  moreover have "\<forall>c \<in> set (takeWhile (\<lambda>c. c = 10) r). isWhiteSpace c"
    using whiteSpace_10 by (auto dest: set_takeWhileD)
  ultimately show ?thesis by (simp add: stripWs_all)
qed

lemma sentences_blank: "sentences p r = Some n \<Longrightarrow> stripWs (take n r) = []"
proof -
  assume "sentences p r = Some n"
  then have "take n r = takeWhile isWhiteSpace r"
    by (auto simp: sentences_def Let_def take_takeWhile split: if_splits option.splits)
  then show ?thesis by (simp add: stripWs_takeWhile)
qed

lemma packSentences_cover:
  "packSentences ss (result, cur) = (result', cur') \<Longrightarrow>
   stripWs (concat result') @ stripWs cur'
     = stripWs (concat result) @ stripWs cur @ stripWs (concat ss)"
proof (induction ss arbitrary: result cur)
  case Nil
  then show ?case by (simp add: stripWs_Nil)
next
  case (Cons s ss)
  have sp: "stripWs [32] = []" by (simp add: stripWs_def whiteSpace_32)
  show ?case
  proof (cases "MAX_CHUNK_SIZE < length (cur @ s) \<and> cur \<noteq> []")
    case True
    then have "packSentences (s # ss) (result, cur) = packSentences ss (result @ [trim cur], s)"
      by simp
    with Cons.prems have "packSentences ss (result @ [trim cur], s) = (result', cur')"
      by (simp only:)
    from Cons.IH[OF this] show ?thesis by (simp add: stripWs_append stripWs_trim)
  next
    case False
    then have "packSentences (s # ss) (result, cur)
        = packSentences ss (result, cur @ (if cur \<noteq> [] then [32] else []) @ s)"
      by auto
    with Cons.prems
    have "packSentences ss (result, cur @ (if cur \<noteq> [] then [32] else []) @ s) = (result', cur')"
      by (simp only:)
    from Cons.IH[OF this] show ?thesis using sp by (simp add: stripWs_append stripWs_Nil)
  qed
qed

lemma splitBySentences_cover: "stripWs (concat (splitBySentences chunk)) = stripWs chunk"
proof -
  obtain result cur where p: "packSentences (js_split sentences chunk) ([], []) = (result, cur)"
    by (cases "packSentences (js_split sentences chunk) ([], [])") auto
  from packSentences_cover[OF p]
  have c: "stripWs (concat result) @ stripWs cur = stripWs chunk"
    by (simp add: stripWs_Nil js_split_cover[of sentences, OF sentences_blank])
  show ?thesis
  proof (cases "trim cur = []")
    case True
    then have "stripWs cur = []" using stripWs_blank[of cur] by (simp add: nonBlank_def)
    with c True p show ?thesis by (simp add: splitBySentences_def)
  next
    case False
    with c p show ?thesis by (simp add: splitBySentences_def stripWs_append stripWs_trim)
  qed
qed

lemma refineChunks_cover: "stripWs (concat (refineChunks chunks)) = stripWs (concat chunks)"
proof (induction chunks)
  case Nil
  then show ?case by simp
next
  case (Cons chunk chunks)
  let ?one = "if length chunk \<le> MAX_CHUNK_SIZE then [chunk]
      else (let subChunks = filter nonBlank (js_split paragraphs chunk)
            in if 1 < length subChunks then subChunks else splitBySentences chunk)"
  have "stripWs (concat ?one) = stripWs chunk"
    by (simp add: Let_def stripWs_concat_nonBlank splitBySentences_cover
        js_split_cover[of paragraphs, OF paragraphs_blank])
  then show ?case using Cons by (simp add: stripWs_append)
qed

lemma primaryChunks_cover:
  "\<not> usesRules doc \<Longrightarrow> stripWs (concat (primaryChunks doc)) = stripWs doc"
  by (auto simp: primaryChunks_def usesRules_def Let_def stripWs_concat_nonBlank
      js_split_cover[of headers, OF headers_blank]
      js_split_cover[of paragraphs, OF paragraphs_blank])

lemma primaryChunks_rules:
  "usesRules doc \<Longrightarrow>
   stripWs (concat (primaryChunks doc)) = stripWs (concat (js_split horizontalRules doc))"
  by (simp add: primaryChunks_def usesRules_def Let_def stripWs_concat_nonBlank)

subsection \<open>The separators removed at horizontal rules\<close>

lemma sep_loop_Nil: "sep_loop m prev cur [] = []"
  by (simp add: sep_loop.simps)

lemma sep_loop_Cons:
  "sep_loop m prev cur (c # cs) =
     (case m prev (c # cs) of
        None \<Rightarrow> sep_loop m (Some c) (c # cur) cs
      | Some n \<Rightarrow>
          if n = 0 \<and> cur = [] then sep_loop m (Some c) (c # cur) cs
          else take n (c # cs) #
            sep_loop m (if n = 0 then prev else Some (last (take n (c # cs)))) []
              (drop n (c # cs)))"
  by (subst sep_loop.simps) simp

lemma weave_split:
  "weave (split_loop m prev cur rest) (sep_loop m prev cur rest) = rev cur @ rest"
proof (induction "2 * length rest + (if cur = [] then 0 else 1)" arbitrary: prev cur rest
    rule: less_induct)
  case less
  show ?case
  proof (cases rest)
    case Nil
    then show ?thesis by (simp add: split_loop_Nil sep_loop_Nil)
  next
    case (Cons c cs)
    have step: "weave (split_loop m (Some c) (c # cur) cs) (sep_loop m (Some c) (c # cur) cs)
              = rev cur @ rest"
      using less[of cs "c # cur" "Some c"] Cons by simp
    show ?thesis
    proof (cases "m prev rest")
      case None
      with Cons step show ?thesis by (simp add: split_loop_Cons sep_loop_Cons)
    next
      case (Some n)
      show ?thesis
      proof (cases "n = 0 \<and> cur = []")
        case True
        with Cons Some step show ?thesis
          by (simp add: split_loop_Cons sep_loop_Cons)
      next
        case False
        let ?p = "if n = 0 then prev else Some (last (take n rest))"
        have "2 * length (drop n rest) + 0 < 2 * length rest + (if cur = [] then 0 else 1)"
          using False Cons by (cases "n = 0") auto
        then have ih: "weave (split_loop m ?p [] (drop n rest)) (sep_loop m ?p [] (drop n rest))
                     = drop n rest"
          using less[of "drop n rest" "[]" ?p] by simp
        have 1: "split_loop m prev cur rest = rev cur # split_loop m ?p [] (drop n rest)"
          using Cons Some False by (simp add: split_loop_Cons)
        have 2: "sep_loop m prev cur rest = take n rest # sep_loop m ?p [] (drop n rest)"
          using Cons Some False by (simp add: sep_loop_Cons)
        show ?thesis by (simp only: 1 2 weave.simps ih append_take_drop_id)
      qed
    qed
  qed
qed

lemma weave_js_split: "weave (js_split m s) (split_separators m s) = s"
  using weave_split[of m None "[]" s]
  by (simp add: js_split_def split_separators_def sep_loop_Nil)

lemma takeWhile_replicate: "takeWhile (\<lambda>d. d = c) r = replicate (length (takeWhile (\<lambda>d. d = c) r)) c"
  by (induction r) simp_all

lemma ruleLine_take:
  "ruleLine c r = Some n \<Longrightarrow> 3 \<le> n \<and> take n r = replicate n c"
proof -
  assume "ruleLine c r = Some n"
  then have n: "n = length (takeWhile (\<lambda>d. d = c) r)" "3 \<le> n"
    by (auto simp: ruleLine_def Let_def split: if_splits)
  then have "take n r = takeWhile (\<lambda>d. d = c) r" by (simp add: take_takeWhile)
  with n takeWhile_replicate[of c r] show ?thesis by simp
qed

lemma horizontalRules_take:
  assumes "horizontalRules p r = Some n"
  shows "isRuleLine (take n r) \<and> 0 < n"
proof -
  from assms obtain c where c: "c \<in> {45, 42, 61}" "ruleLine c r = Some n"
    by (auto simp: horizontalRules_def split: if_splits option.splits)
  from ruleLine_take[OF c(2)] have n: "3 \<le> n" "take n r = replicate n c" by simp_all
  then have "length (take n r) = n" by simp
  with n c(1) show ?thesis unfolding isRuleLine_def by auto
qed

lemma sep_loop_rules: "list_all isRuleLine (sep_loop horizontalRules prev cur rest)"
proof (induction "length rest" arbitrary: prev cur rest rule: less_induct)
  case less
  show ?case
  proof (cases rest)
    case Nil
    then show ?thesis by (simp add: sep_loop_Nil)
  next
    case (Cons c cs)
    have step: "list_all isRuleLine (sep_loop horizontalRules (Some c) (c # cur) cs)"
      using less[of cs] Cons by simp
    show ?thesis
    proof (cases "horizontalRules prev rest")
      case None
      with Cons step show ?thesis by (simp add: sep_loop_Cons)
    next
      case (Some n)
      from horizontalRules_take[OF Some] have n: "isRuleLine (take n rest)" "0 < n" by simp_all
      let ?p = "Some (last (take n rest))"
      have "length (drop n rest) < length rest" using n Cons by simp
      then have ih: "list_all isRuleLine (sep_loop horizontalRules ?p [] (drop n rest))"
        by (rule less)
      have "sep_loop horizontalRules prev cur rest
          = take n rest # sep_loop horizontalRules ?p [] (drop n rest)"
        using Cons Some n by (simp add: sep_loop_Cons)
      with n ih show ?thesis by simp
    qed
  qed
qed


subsection \<open>Coverage\<close>

lemma ruledDocument_facts:
  "formatChosen exampleStrategies ruledDocument defaultOptions = Text"
  "usesRules ruledDocument"
  "split_separators horizontalRules ruledDocument = [str ''---'']"
  "js_split horizontalRules ruledDocument = [str ''aaaaaaaaaaaa'' @ [10], [10] @ str ''bbbbbbbbbbbb'']"
  by code_simp+

lemma bearerDocument_facts:
  "formatChosen exampleStrategies bearerDocument defaultOptions = Text"
  "\<not> usesRules bearerDocument"
  by code_simp+

text \<open>
  C3.  Coverage on the Markdown and plain-text path.  When the format chosen is neither
  \<open>html\<close> nor \<open>json\<close>, \<open>splitIntoChunks\<close> returns the refined chunks whose trimmed length is
  above \<open>MIN_CHUNK_SIZE\<close>, so only chunks at or below the minimum are dropped from the
  refined list.  The refined list itself, concatenated, has the units of the document
  that are not white space, in their order, unless the document is cut at its horizontal
  rules: then it has those of the pieces between the rules, and the document is these
  pieces woven with the separators removed, each a line of three or more \<open>-\<close>, \<open>*\<close> or
  \<open>=\<close>.
\<close>

theorem chunk_coverage:
  assumes "formatChosen st doc options \<noteq> Html" and "formatChosen st doc options \<noteq> Json"
  shows "splitIntoChunks st doc options
           = filter (\<lambda>chunk. MIN_CHUNK_SIZE < length (trim chunk))
               (refineChunks (primaryChunks doc)) \<and>
         (\<not> usesRules doc \<longrightarrow>
            stripWs (concat (refineChunks (primaryChunks doc))) = stripWs doc) \<and>
         (usesRules doc \<longrightarrow>
            stripWs (concat (refineChunks (primaryChunks doc)))
              = stripWs (concat (js_split horizontalRules doc)) \<and>
            weave (js_split horizontalRules doc) (split_separators horizontalRules doc) = doc \<and>
            list_all isRuleLine (split_separators horizontalRules doc))"
proof -
  have "splitIntoChunks st doc options = splitMarkdownDocument doc"
    using assms by (rule splitIntoChunks_markdown)
  then have 1: "splitIntoChunks st doc options
           = filter (\<lambda>chunk. MIN_CHUNK_SIZE < length (trim chunk))
               (refineChunks (primaryChunks doc))"
    by (simp add: splitMarkdownDocument_def Let_def)
  have 2: "stripWs (concat (refineChunks (primaryChunks doc))) = stripWs doc"
    if "\<not> usesRules doc"
    using that by (simp add: refineChunks_cover primaryChunks_cover)
  have 3: "stripWs (concat (refineChunks (primaryChunks doc)))
              = stripWs (concat (js_split horizontalRules doc))" if "usesRules doc"
    using that by (simp add: refineChunks_cover primaryChunks_rules)
  have 4: "weave (js_split horizontalRules doc) (split_separators horizontalRules doc) = doc"
    by (rule weave_js_split)
  have 5: "list_all isRuleLine (split_separators horizontalRules doc)"
    by (simp add: split_separators_def sep_loop_rules)
  from 1 2 3 4 5 show ?thesis by blast
qed

theorem chunk_coverage_witness:
  "formatChosen exampleStrategies bearerDocument defaultOptions = Text \<and>
   \<not> usesRules bearerDocument \<and>
   stripWs (concat (refineChunks (primaryChunks bearerDocument))) = stripWs bearerDocument \<and>
   formatChosen exampleStrategies ruledDocument defaultOptions = Text \<and>
   usesRules ruledDocument \<and>
   stripWs (concat (refineChunks (primaryChunks ruledDocument)))
     = stripWs (concat [str ''aaaaaaaaaaaa'' @ [10], [10] @ str ''bbbbbbbbbbbb'']) \<and>
   weave [str ''aaaaaaaaaaaa'' @ [10], [10] @ str ''bbbbbbbbbbbb''] [str ''---''] = ruledDocument \<and>
   list_all isRuleLine [str ''---'']"
  using chunk_coverage [of exampleStrategies bearerDocument defaultOptions]
    chunk_coverage [of exampleStrategies ruledDocument defaultOptions]
    ruledDocument_facts bearerDocument_facts
  by simp

text \<open>
  The claim as stated, that nothing but white space and chunks under the minimum size is
  lost, fails where the document is cut at horizontal rules: the rule between the two
  paragraphs of \<open>ruledDocument\<close> is in no chunk, and no chunk is under the minimum.
\<close>

theorem chunk_coverage_counterexample:
  "splitIntoChunks exampleStrategies ruledDocument defaultOptions
     = [str ''aaaaaaaaaaaa'' @ [10], [10] @ str ''bbbbbbbbbbbb''] \<and>
   refineChunks (primaryChunks ruledDocument)
     = splitIntoChunks exampleStrategies ruledDocument defaultOptions \<and>
   stripWs (concat (splitIntoChunks exampleStrategies ruledDocument defaultOptions))
     = str ''aaaaaaaaaaaabbbbbbbbbbbb'' \<and>
   stripWs ruledDocument = str ''aaaaaaaaaaaa---bbbbbbbbbbbb'' \<and>
   stripWs (concat (splitIntoChunks exampleStrategies ruledDocument defaultOptions))
     \<noteq> stripWs ruledDocument"
  by code_simp
end
